theory Spec2Isabelle
  imports Main "HOL-Library.Sublist" "HOL-Library.AList"
begin

section \<open>The file system the program runs on\<close>

text \<open>
  \<^verbatim>\<open>sync_folder.py\<close> mirrors a source folder into a destination folder through
  \<^verbatim>\<open>os\<close>, \<^verbatim>\<open>shutil\<close> and \<^verbatim>\<open>pathlib\<close>. The embedding gives these calls a small
  file system to act on:

  \<^item> a path below a folder is the list of its components (\<^verbatim>\<open>str\<close> of it joins them with
    \<^verbatim>\<open>os.sep\<close>, which no component contains);
  \<^item> the source folder and the destination folder are two separate trees, so an absolute
    path is the root it lies under and the components below that root; the parent of
    either root exists and is a directory;
  \<^item> a regular file has a modification time and a content, a directory has a modification
    time and its entries in the order the operating system lists them; there are no
    symbolic links;
  \<^item> a modification time is an integer number of clock ticks (\<^verbatim>\<open>os.path.getmtime\<close> gives a
    float that is only ever compared);
  \<^item> an exception is a value of type \<open>error\<close>; a call that can raise after it has changed the
    file system returns the error together with the world it leaves behind;
  \<^item> the process pool and the thread pools run their tasks one after the other, in the
    order of submission;
  \<^item> the journal of a world records every change made to the trees and every warning and
    error the program logs (messages at level info and debug are left out).
\<close>

type_synonym rpath = "string list"

datatype root = Source | Destination

type_synonym apath = "root \<times> rpath"

datatype node = is_File: File (mtime: int) (content: string)
  | is_Dir: Dir (mtime: int) (entries: "(string \<times> node) list")

datatype error = ValueError | FileNotFoundError | FileExistsError | NotADirectoryError
  | IsADirectoryError | DirectoryNotEmpty | SameFileError | ZeroDivisionError

datatype event = Mkdir apath | Copied apath apath | Removed apath | Rmdir apath
  | Warning rpath | Failed apath error

record world =
  source :: "node option"
  destination :: "node option"
  journal :: "event list"

fun tree_of :: "world \<Rightarrow> root \<Rightarrow> node option" where
  "tree_of w Source = source w"
| "tree_of w Destination = destination w"

fun set_tree :: "world \<Rightarrow> root \<Rightarrow> node option \<Rightarrow> world" where
  "set_tree w Source t = w\<lparr>source := t\<rparr>"
| "set_tree w Destination t = w\<lparr>destination := t\<rparr>"

definition emit :: "event \<Rightarrow> world \<Rightarrow> world" where
  "emit e w = w\<lparr>journal := journal w @ [e]\<rparr>"

text \<open>Path resolution: the node a path below a tree leads to, if there is one.\<close>

fun lookup :: "node \<Rightarrow> rpath \<Rightarrow> node option"
  and lookup_entries :: "(string \<times> node) list \<Rightarrow> string \<Rightarrow> rpath \<Rightarrow> node option" where
  "lookup t [] = Some t"
| "lookup (File m c) (n # p) = None"
| "lookup (Dir m es) (n # p) = lookup_entries es n p"
| "lookup_entries [] n p = None"
| "lookup_entries ((k, c) # es) n p = (if k = n then lookup c p else lookup_entries es n p)"

text \<open>Rewriting the entries of the directory a path leads to.\<close>

fun modify :: "((string \<times> node) list \<Rightarrow> (string \<times> node) list) \<Rightarrow> rpath \<Rightarrow> node \<Rightarrow> node"
  and modify_entries :: "((string \<times> node) list \<Rightarrow> (string \<times> node) list) \<Rightarrow> string \<Rightarrow> rpath
    \<Rightarrow> (string \<times> node) list \<Rightarrow> (string \<times> node) list" where
  "modify f [] (Dir m es) = Dir m (f es)"
| "modify f (n # p) (Dir m es) = Dir m (modify_entries f n p es)"
| "modify f p (File m c) = File m c"
| "modify_entries f n p [] = []"
| "modify_entries f n p ((k, c) # es) =
     (if k = n then (k, modify f p c) # es else (k, c) # modify_entries f n p es)"

definition os_stat :: "world \<Rightarrow> apath \<Rightarrow> node option" where
  "os_stat w a = (case tree_of w (fst a) of None \<Rightarrow> None | Some t \<Rightarrow> lookup t (snd a))"

definition upd_dir :: "world \<Rightarrow> apath \<Rightarrow> ((string \<times> node) list \<Rightarrow> (string \<times> node) list) \<Rightarrow> world" where
  "upd_dir w a f = set_tree w (fst a) (map_option (modify f (snd a)) (tree_of w (fst a)))"

subsection \<open>The calls of \<^verbatim>\<open>os\<close> and \<^verbatim>\<open>os.path\<close>\<close>

definition path_exists :: "world \<Rightarrow> apath \<Rightarrow> bool" where
  "path_exists w a = (os_stat w a \<noteq> None)"

definition os_isdir :: "world \<Rightarrow> apath \<Rightarrow> bool" where
  "os_isdir w a = (case os_stat w a of Some (Dir m es) \<Rightarrow> True | _ \<Rightarrow> False)"

definition os_getmtime :: "world \<Rightarrow> apath \<Rightarrow> error + int" where
  "os_getmtime w a = (case os_stat w a of None \<Rightarrow> Inl FileNotFoundError | Some t \<Rightarrow> Inr (mtime t))"

definition os_join :: "root \<Rightarrow> rpath \<Rightarrow> apath" where
  "os_join folder rel_path = (folder, rel_path)"

definition dirname :: "apath \<Rightarrow> apath" where
  "dirname a = (fst a, butlast (snd a))"

definition basename :: "rpath \<Rightarrow> string" where
  "basename p = (if p = [] then [] else last p)"

text \<open>\<^verbatim>\<open>str(rel_path).count(os.sep)\<close>: one separator between two components.\<close>

definition count_sep :: "rpath \<Rightarrow> nat" where
  "count_sep p = length p - 1"

definition os_listdir :: "world \<Rightarrow> apath \<Rightarrow> error + string list" where
  "os_listdir w a =
     (case os_stat w a of
        None \<Rightarrow> Inl FileNotFoundError
      | Some (File m c) \<Rightarrow> Inl NotADirectoryError
      | Some (Dir m es) \<Rightarrow> Inr (map fst es))"

text \<open>
  \<^verbatim>\<open>os.mkdir\<close>: the new directory is empty, stamped with the clock reading \<open>now\<close> and
  listed after the entries its parent already has.
\<close>

definition os_mkdir :: "int \<Rightarrow> world \<Rightarrow> apath \<Rightarrow> error + world" where
  "os_mkdir now w a =
     (if snd a = [] then
        (case tree_of w (fst a) of
           None \<Rightarrow> Inr (emit (Mkdir a) (set_tree w (fst a) (Some (Dir now []))))
         | Some t \<Rightarrow> Inl FileExistsError)
      else
        (case os_stat w (dirname a) of
           None \<Rightarrow> Inl FileNotFoundError
         | Some (File m c) \<Rightarrow> Inl NotADirectoryError
         | Some (Dir m es) \<Rightarrow>
             if last (snd a) \<in> fst ` set es then Inl FileExistsError
             else Inr (emit (Mkdir a)
                    (upd_dir w (dirname a) (\<lambda>es. es @ [(last (snd a), Dir now [])])))))"

text \<open>
  \<^verbatim>\<open>os.makedirs(name, exist_ok=True)\<close>, as the standard library writes it: the missing
  parents first (a \<^verbatim>\<open>FileExistsError\<close> from there is passed over), then \<^verbatim>\<open>mkdir(name)\<close>,
  whose error is raised again unless \<^verbatim>\<open>name\<close> is a directory.
\<close>

function os_makedirs :: "int \<Rightarrow> world \<Rightarrow> apath \<Rightarrow> (error \<times> world) + world" where
  "os_makedirs now w a =
     (case (if snd a \<noteq> [] \<and> \<not> path_exists w (dirname a)
            then (case os_makedirs now w (dirname a) of
                    Inl ew \<Rightarrow> if fst ew = FileExistsError then Inr (snd ew) else Inl ew
                  | Inr w' \<Rightarrow> Inr w')
            else Inr w) of
        Inl ew \<Rightarrow> Inl ew
      | Inr w1 \<Rightarrow>
          (case os_mkdir now w1 a of
             Inr w2 \<Rightarrow> Inr w2
           | Inl e \<Rightarrow> if os_isdir w1 a then Inr w1 else Inl (e, w1)))"
  by pat_completeness auto
termination
  by (relation "measure (\<lambda>(now, w, a). length (snd a))") (auto simp: dirname_def)

declare os_makedirs.simps [simp del]

definition os_remove :: "world \<Rightarrow> apath \<Rightarrow> error + world" where
  "os_remove w a =
     (case os_stat w a of
        None \<Rightarrow> Inl FileNotFoundError
      | Some (Dir m es) \<Rightarrow> Inl IsADirectoryError
      | Some (File m c) \<Rightarrow>
          Inr (emit (Removed a)
            (if snd a = [] then set_tree w (fst a) None
             else upd_dir w (dirname a) (AList.delete (last (snd a))))))"

definition os_rmdir :: "world \<Rightarrow> apath \<Rightarrow> error + world" where
  "os_rmdir w a =
     (case os_stat w a of
        None \<Rightarrow> Inl FileNotFoundError
      | Some (File m c) \<Rightarrow> Inl NotADirectoryError
      | Some (Dir m es) \<Rightarrow>
          if es \<noteq> [] then Inl DirectoryNotEmpty
          else Inr (emit (Rmdir a)
            (if snd a = [] then set_tree w (fst a) None
             else upd_dir w (dirname a) (AList.delete (last (snd a))))))"

text \<open>
  \<^verbatim>\<open>shutil.copy2(src, dst)\<close>: a destination that is a directory stands for the file of the
  source's name inside it; the content is copied, then the modification time.
\<close>

definition shutil_copy2 :: "world \<Rightarrow> apath \<Rightarrow> apath \<Rightarrow> error + world" where
  "shutil_copy2 w src dst =
     (let dst = (if os_isdir w dst then (fst dst, snd dst @ [basename (snd src)]) else dst) in
      if src = dst then Inl SameFileError
      else case os_stat w src of
        None \<Rightarrow> Inl FileNotFoundError
      | Some (Dir m es) \<Rightarrow> Inl IsADirectoryError
      | Some (File m c) \<Rightarrow>
          (case os_stat w dst of
             Some (Dir m' es) \<Rightarrow> Inl IsADirectoryError
           | Some (File m' c') \<Rightarrow>
               Inr (emit (Copied src dst)
                 (if snd dst = [] then set_tree w (fst dst) (Some (File m c))
                  else upd_dir w (dirname dst) (AList.update (last (snd dst)) (File m c))))
           | None \<Rightarrow>
               if snd dst = [] then Inr (emit (Copied src dst) (set_tree w (fst dst) (Some (File m c))))
               else (case os_stat w (dirname dst) of
                  None \<Rightarrow> Inl FileNotFoundError
                | Some (File m' c') \<Rightarrow> Inl NotADirectoryError
                | Some (Dir m' es) \<Rightarrow>
                    Inr (emit (Copied src dst)
                      (upd_dir w (dirname dst) (AList.update (last (snd dst)) (File m c)))))))"

text \<open>
  \<^verbatim>\<open>os.walk\<close>, top down: a directory's triple (its path, its subdirectories, its other
  entries), then the walks of its subdirectories in the order listed. A top that is not
  a directory yields nothing.
\<close>

fun walk :: "rpath \<Rightarrow> node \<Rightarrow> (rpath \<times> string list \<times> string list) list"
  and walk_entries :: "rpath \<Rightarrow> (string \<times> node) list \<Rightarrow> (rpath \<times> string list \<times> string list) list" where
  "walk p (File m c) = []"
| "walk p (Dir m es) =
     (p, map fst (filter (\<lambda>e. is_Dir (snd e)) es), map fst (filter (\<lambda>e. is_File (snd e)) es))
       # walk_entries p es"
| "walk_entries p [] = []"
| "walk_entries p ((n, c) # es) = walk (p @ [n]) c @ walk_entries p es"

definition os_walk :: "world \<Rightarrow> root \<Rightarrow> (rpath \<times> string list \<times> string list) list" where
  "os_walk w base = (case tree_of w base of None \<Rightarrow> [] | Some t \<Rightarrow> walk [] t)"

section \<open>The program\<close>

text \<open>
  \<^verbatim>\<open>file_hash\<close> feeds the file to MD5 in blocks of 8192 bytes; the digest is that of the
  whole content. The digest function is the parameter \<open>H\<close>.
\<close>

definition file_hash :: "(string \<Rightarrow> 'h) \<Rightarrow> world \<Rightarrow> apath \<Rightarrow> error + 'h" where
  "file_hash H w path =
     (case os_stat w path of
        None \<Rightarrow> Inl FileNotFoundError
      | Some (Dir m es) \<Rightarrow> Inl IsADirectoryError
      | Some (File m c) \<Rightarrow> Inr (H c))"

definition should_copy :: "(string \<Rightarrow> 'h) \<Rightarrow> world \<Rightarrow> apath \<Rightarrow> apath \<Rightarrow> error + bool" where
  "should_copy H w src_file dst_file =
     (if \<not> path_exists w dst_file then Inr True
      else case os_getmtime w src_file of Inl e \<Rightarrow> Inl e | Inr ms \<Rightarrow>
           (case os_getmtime w dst_file of Inl e \<Rightarrow> Inl e | Inr md \<Rightarrow>
              if ms > md then
                (case file_hash H w src_file of Inl e \<Rightarrow> Inl e | Inr h1 \<Rightarrow>
                   (case file_hash H w dst_file of Inl e \<Rightarrow> Inl e | Inr h2 \<Rightarrow> Inr (h1 \<noteq> h2)))
              else Inr False))"

definition copy_file :: "int \<Rightarrow> world \<Rightarrow> apath \<Rightarrow> apath \<Rightarrow> (error \<times> world) + world" where
  "copy_file now w src_file dst_file =
     (case (if snd dst_file = [] then Inr w else os_makedirs now w (dirname dst_file)) of
        Inl ew \<Rightarrow> Inl ew
      | Inr w1 \<Rightarrow>
          (case shutil_copy2 w1 src_file dst_file of Inl e \<Rightarrow> Inl (e, w1) | Inr w2 \<Rightarrow> Inr w2))"

definition delete_file :: "world \<Rightarrow> apath \<Rightarrow> error + world" where
  "delete_file w path = (if path_exists w path then os_remove w path else Inr w)"

definition skip_files :: "string set" where
  "skip_files = {''.DS_Store'', ''._.DS_Store'', ''Thumbs.db'', ''Desktop.ini'', ''.localized'',
     ''__MACOSX''}"

definition should_skip_file :: "string \<Rightarrow> bool" where
  "should_skip_file filename = (if prefix ''._'' filename then True else filename \<in> skip_files)"

definition scan_files :: "world \<Rightarrow> root \<Rightarrow> bool \<Rightarrow> (apath \<times> rpath) list" where
  "scan_files w base_dir apply_skip_filter =
     concat (map (\<lambda>(root, dirs, files).
        map (\<lambda>f. ((base_dir, root @ [f]), root @ [f]))
          (filter (\<lambda>f. \<not> (apply_skip_filter \<and> should_skip_file f)) files))
      (os_walk w base_dir))"

definition scan_directories :: "world \<Rightarrow> root \<Rightarrow> (apath \<times> rpath) list" where
  "scan_directories w base_dir =
     concat (map (\<lambda>(root, dirs, files). map (\<lambda>d. ((base_dir, root @ [d]), root @ [d])) dirs)
      (os_walk w base_dir))"

fun create_dirs :: "int \<Rightarrow> root \<Rightarrow> world \<Rightarrow> (apath \<times> rpath) list \<Rightarrow> (error \<times> world) + world" where
  "create_dirs now destination_folder w [] = Inr w"
| "create_dirs now destination_folder w (d # src_dirs) =
     (let dst_dir = os_join destination_folder (snd d) in
      if \<not> path_exists w dst_dir then
        (case os_makedirs now w dst_dir of
           Inl ew \<Rightarrow> Inl ew
         | Inr w' \<Rightarrow> create_dirs now destination_folder w' src_dirs)
      else create_dirs now destination_folder w src_dirs)"

definition sync_directories :: "int \<Rightarrow> world \<Rightarrow> root \<Rightarrow> root \<Rightarrow> (error \<times> world) + world" where
  "sync_directories now w source_folder destination_folder =
     create_dirs now destination_folder w (scan_directories w source_folder)"

text \<open>One turn of the loop of \<^verbatim>\<open>remove_obsolete_directories\<close>, with its \<^verbatim>\<open>try\<close>.\<close>

definition remove_if_obsolete :: "rpath set \<Rightarrow> world \<Rightarrow> apath \<times> rpath \<Rightarrow> world" where
  "remove_if_obsolete src_dirs w d =
     (if snd d \<notin> src_dirs then
        (case os_listdir w (fst d) of
           Inl e \<Rightarrow> emit (Failed (fst d) e) w
         | Inr names \<Rightarrow>
             if names = [] then
               (case os_rmdir w (fst d) of Inl e \<Rightarrow> emit (Failed (fst d) e) w | Inr w' \<Rightarrow> w')
             else emit (Warning (snd d)) w)
      else w)"

text \<open>
  \<^verbatim>\<open>dst_dirs.sort(key=..., reverse=True)\<close>: a stable sort, the deepest paths first.
\<close>

definition sort_deepest_first :: "(apath \<times> rpath) list \<Rightarrow> (apath \<times> rpath) list" where
  "sort_deepest_first dst_dirs = sort_key (\<lambda>x. - int (count_sep (snd x))) dst_dirs"

definition remove_obsolete_directories :: "world \<Rightarrow> root \<Rightarrow> root \<Rightarrow> world" where
  "remove_obsolete_directories w source_folder destination_folder =
     (let src_dirs = set (map snd (scan_directories w source_folder));
          dst_dirs = sort_deepest_first (scan_directories w destination_folder)
      in foldl (remove_if_obsolete src_dirs) w dst_dirs)"

text \<open>\<^verbatim>\<open>thread_copy\<close> of \<^verbatim>\<open>copy_worker\<close>, and the worker on its chunk.\<close>

definition thread_copy :: "int \<Rightarrow> root \<Rightarrow> world \<Rightarrow> apath \<times> rpath \<Rightarrow> world" where
  "thread_copy now destination_folder w task =
     (let dst_file = os_join destination_folder (snd task) in
      case copy_file now w (fst task) dst_file of
        Inl ew \<Rightarrow> emit (Failed (fst task) (fst ew)) (snd ew)
      | Inr w' \<Rightarrow> w')"

definition copy_worker :: "int \<Rightarrow> root \<Rightarrow> world \<Rightarrow> (apath \<times> rpath) list \<Rightarrow> world" where
  "copy_worker now destination_folder w chunk = foldl (thread_copy now destination_folder) w chunk"

definition delete_file_safe :: "world \<Rightarrow> apath \<Rightarrow> world" where
  "delete_file_safe w path =
     (case delete_file w path of Inl e \<Rightarrow> emit (Failed path e) w | Inr w' \<Rightarrow> w')"

text \<open>The plan of \<^verbatim>\<open>sync_folders\<close>: the loops that fill \<^verbatim>\<open>copy_tasks\<close> and \<^verbatim>\<open>delete_tasks\<close>.\<close>

fun collect_copy_tasks :: "(string \<Rightarrow> 'h) \<Rightarrow> world \<Rightarrow> root \<Rightarrow> (apath \<times> rpath) list
    \<Rightarrow> error + (apath \<times> rpath) list" where
  "collect_copy_tasks H w destination_folder [] = Inr []"
| "collect_copy_tasks H w destination_folder (s # src_files) =
     (case should_copy H w (fst s) (os_join destination_folder (snd s)) of
        Inl e \<Rightarrow> Inl e
      | Inr b \<Rightarrow>
          (case collect_copy_tasks H w destination_folder src_files of
             Inl e \<Rightarrow> Inl e
           | Inr tasks \<Rightarrow> Inr (if b then s # tasks else tasks)))"

definition collect_delete_tasks :: "rpath set \<Rightarrow> (apath \<times> rpath) list \<Rightarrow> apath list" where
  "collect_delete_tasks src_rel_paths dst_files =
     map fst (filter (\<lambda>d. should_skip_file (basename (snd d)) \<or> snd d \<notin> src_rel_paths) dst_files)"

text \<open>The chunks: \<^verbatim>\<open>range(0, len(copy_tasks), chunk_size)\<close> and the slices it cuts.\<close>

function range_step :: "nat \<Rightarrow> nat \<Rightarrow> nat \<Rightarrow> nat list" where
  "range_step i stop step =
     (if step = 0 then [] else if i < stop then i # range_step (i + step) stop step else [])"
  by pat_completeness auto
termination
  by (relation "measure (\<lambda>(i, stop, step). stop - i)") auto

declare range_step.simps [simp del]

definition slice :: "'a list \<Rightarrow> nat \<Rightarrow> nat \<Rightarrow> 'a list" where
  "slice xs i j = take (j - i) (drop i xs)"

definition num_processes :: "nat \<Rightarrow> nat \<Rightarrow> nat" where
  "num_processes cpu_count copy_count = min cpu_count (max 1 (copy_count div 100))"

definition chunk_size :: "nat \<Rightarrow> nat \<Rightarrow> nat" where
  "chunk_size cpu_count copy_count = copy_count div num_processes cpu_count copy_count + 1"

definition chunks :: "nat \<Rightarrow> 'a list \<Rightarrow> 'a list list" where
  "chunks cpu_count copy_tasks =
     map (\<lambda>i. slice copy_tasks i (i + chunk_size cpu_count (length copy_tasks)))
       (range_step 0 (length copy_tasks) (chunk_size cpu_count (length copy_tasks)))"

text \<open>What a run of \<^verbatim>\<open>sync_folders\<close> that returns leaves: its plan and the world.\<close>

record run =
  src_files :: "(apath \<times> rpath) list"
  copy_tasks :: "(apath \<times> rpath) list"
  dst_files :: "(apath \<times> rpath) list"
  delete_tasks :: "apath list"
  after :: world

definition sync_folders :: "(string \<Rightarrow> 'h) \<Rightarrow> nat \<Rightarrow> int \<Rightarrow> world \<Rightarrow> root \<Rightarrow> root
    \<Rightarrow> (error \<times> world) + run" where
  "sync_folders H cpu_count now w source_folder destination_folder =
     (if \<not> path_exists w (source_folder, []) then Inl (ValueError, w)
      else case os_makedirs now w (destination_folder, []) of Inl ew \<Rightarrow> Inl ew | Inr w1 \<Rightarrow>
      (case sync_directories now w1 source_folder destination_folder of Inl ew \<Rightarrow> Inl ew | Inr w2 \<Rightarrow>
      (let srcs = scan_files w2 source_folder True in
       case collect_copy_tasks H w2 destination_folder srcs of Inl e \<Rightarrow> Inl (e, w2) | Inr tasks \<Rightarrow>
      (let src_rel_paths = set (map snd srcs);
           dsts = scan_files w2 destination_folder False;
           dels = collect_delete_tasks src_rel_paths dsts
       in
       case (if tasks \<noteq> [] then
               (if num_processes cpu_count (length tasks) = 0 then Inl (ZeroDivisionError, w2)
                else Inr (foldl (copy_worker now destination_folder) w2 (chunks cpu_count tasks)))
             else Inr w2) of Inl ew \<Rightarrow> Inl ew | Inr w3 \<Rightarrow>
      (let w4 = (if dels \<noteq> [] then foldl delete_file_safe w3 dels else w3);
           w5 = remove_obsolete_directories w4 source_folder destination_folder
       in Inr \<lparr>src_files = srcs, copy_tasks = tasks, dst_files = dsts, delete_tasks = dels,
                after = w5\<rparr>)))))"

section \<open>What the proofs observe of a world\<close>

text \<open>
  Every read the program makes of a path (\<^verbatim>\<open>exists\<close>, \<^verbatim>\<open>isdir\<close>, \<^verbatim>\<open>getmtime\<close>, the
  digest) depends on the node found there only through its shape: a file with its time and
  content, or a directory with its time. The view of a world gives each path its shape.
\<close>

definition shape :: "node \<Rightarrow> (int \<times> string) + int" where
  "shape t = (case t of File m c \<Rightarrow> Inl (m, c) | Dir m es \<Rightarrow> Inr m)"

definition obs :: "node \<Rightarrow> rpath \<Rightarrow> ((int \<times> string) + int) option" where
  "obs t p = map_option shape (lookup t p)"

definition view :: "world \<Rightarrow> apath \<Rightarrow> ((int \<times> string) + int) option" where
  "view w a = map_option shape (os_stat w a)"

definition dirs_of :: "(string \<times> node) list \<Rightarrow> string list" where
  "dirs_of es = map fst (filter (\<lambda>e. is_Dir (snd e)) es)"

definition files_of :: "(string \<times> node) list \<Rightarrow> string list" where
  "files_of es = map fst (filter (\<lambda>e. is_File (snd e)) es)"

text \<open>A directory lists each name once: the invariant of a file system.\<close>

fun wf_node :: "node \<Rightarrow> bool" and wf_entries :: "(string \<times> node) list \<Rightarrow> bool" where
  "wf_node (File m c) = True"
| "wf_node (Dir m es) = (distinct (map fst es) \<and> wf_entries es)"
| "wf_entries [] = True"
| "wf_entries ((n, c) # es) = (wf_node c \<and> wf_entries es)"

definition wf_tree :: "node option \<Rightarrow> bool" where
  "wf_tree t = (case t of None \<Rightarrow> True | Some n \<Rightarrow> wf_node n)"

definition wf_world :: "world \<Rightarrow> bool" where
  "wf_world w = (wf_tree (source w) \<and> wf_tree (destination w))"

text \<open>
  \<open>point_upd w a x e w'\<close>: the world \<open>w'\<close> is \<open>w\<close> with the shape at the one path \<open>a\<close> set to
  \<open>x\<close> and the event \<open>e\<close> added to the journal.
\<close>

definition point_upd :: "world \<Rightarrow> apath \<Rightarrow> ((int \<times> string) + int) option \<Rightarrow> event \<Rightarrow> world \<Rightarrow> bool" where
  "point_upd w a x e w' \<longleftrightarrow>
     view w' = (view w)(a := x) \<and> journal w' = journal w @ [e] \<and>
     (\<forall>r. r \<noteq> fst a \<longrightarrow> tree_of w' r = tree_of w r) \<and>
     (wf_world w \<longrightarrow> wf_world w')"

text \<open>
  \<open>grown now d P w w'\<close>: the world \<open>w'\<close> is \<open>w\<close> with new directories, stamped \<open>now\<close>, at
  some paths of \<open>P\<close> under the root \<open>d\<close>, and nothing else changed; the journal has one
  \<open>Mkdir\<close> more for each.
\<close>

definition grown :: "int \<Rightarrow> root \<Rightarrow> rpath set \<Rightarrow> world \<Rightarrow> world \<Rightarrow> bool" where
  "grown now d P w w' \<longleftrightarrow>
     (\<forall>b. view w' b = view w b \<or>
          (fst b = d \<and> snd b \<in> P \<and> view w b = None \<and> view w' b = Some (Inr now))) \<and>
     (\<exists>ps. journal w' = journal w @ map Mkdir ps) \<and>
     (\<forall>r. r \<noteq> d \<longrightarrow> tree_of w' r = tree_of w r) \<and>
     (wf_world w \<longrightarrow> wf_world w')"

text \<open>The world a call leaves, whether it returns or raises.\<close>

definition world_of :: "(error \<times> world) + world \<Rightarrow> world" where
  "world_of res = (case res of Inl ew \<Rightarrow> snd ew | Inr w' \<Rightarrow> w')"

text \<open>The path \<^verbatim>\<open>shutil.copy2\<close> writes to.\<close>

definition copy2_target :: "world \<Rightarrow> apath \<Rightarrow> apath \<Rightarrow> apath" where
  "copy2_target w src dst =
     (if os_isdir w dst then (fst dst, snd dst @ [basename (snd src)]) else dst)"

text \<open>
  The skip predicate as it would read with the entry \<^verbatim>\<open>'._.DS_Store'\<close> taken out of
  \<^verbatim>\<open>skip_files\<close>, for comparison with the one of the program.
\<close>

definition skip_files_reduced :: "string set" where
  "skip_files_reduced = {''.DS_Store'', ''Thumbs.db'', ''Desktop.ini'', ''.localized'', ''__MACOSX''}"

definition should_skip_file_reduced :: "string \<Rightarrow> bool" where
  "should_skip_file_reduced filename =
     (if prefix ''._'' filename then True else filename \<in> skip_files_reduced)"

text \<open>The first step of \<^verbatim>\<open>os.makedirs\<close>: the missing parents.\<close>

definition before_mkdir :: "int \<Rightarrow> world \<Rightarrow> apath \<Rightarrow> (error \<times> world) + world" where
  "before_mkdir now w a =
     (if snd a \<noteq> [] \<and> \<not> path_exists w (dirname a)
      then (case os_makedirs now w (dirname a) of
              Inl ew \<Rightarrow> if fst ew = FileExistsError then Inr (snd ew) else Inl ew
            | Inr w' \<Rightarrow> Inr w')
      else Inr w)"

text \<open>The copy phase and the delete phase of \<^verbatim>\<open>sync_folders\<close>, by name.\<close>

definition copy_phase :: "nat \<Rightarrow> int \<Rightarrow> root \<Rightarrow> world \<Rightarrow> (apath \<times> rpath) list \<Rightarrow> world" where
  "copy_phase cpu now d w tasks =
     (if tasks \<noteq> [] then foldl (copy_worker now d) w (chunks cpu tasks) else w)"

definition delete_phase :: "world \<Rightarrow> apath list \<Rightarrow> world" where
  "delete_phase w dels = (if dels \<noteq> [] then foldl delete_file_safe w dels else w)"

text \<open>Small worlds on which the theorems below are run.\<close>

definition no_world :: world where
  "no_world = \<lparr>source = None, destination = None, journal = []\<rparr>"

definition two_files :: world where
  "two_files =
     \<lparr>source = Some (Dir 0 [(''a'', File 5 ''new''), (''b'', File 9 ''same'')]),
      destination = Some (Dir 0 [(''a'', File 5 ''old''), (''b'', File 3 ''text'')]),
      journal = []\<rparr>"

definition demo_world :: world where
  "demo_world =
     \<lparr>source = Some (Dir 0 [(''a.txt'', File 5 ''v2''),
                            (''sub'', Dir 0 [(''b.txt'', File 1 ''b'')]),
                            (''.DS_Store'', File 1 ''s'')]),
      destination = Some (Dir 0 [(''a.txt'', File 3 ''v1''),
                                 (''old.txt'', File 2 ''x''),
                                 (''._a.txt'', File 1 ''j''),
                                 (''stale'', Dir 0 [(''f'', File 1 ''f'')]),
                                 (''keep'', Dir 0 [(''sub'', Dir 0 [])])]),
      journal = []\<rparr>"

definition demo_after :: world where
  "demo_after =
     \<lparr>source = Some (Dir 0 [(''a.txt'', File 5 ''v2''),
                            (''sub'', Dir 0 [(''b.txt'', File 1 ''b'')]),
                            (''.DS_Store'', File 1 ''s'')]),
      destination = Some (Dir 0 [(''a.txt'', File 5 ''v2''),
                                 (''sub'', Dir 10 [(''b.txt'', File 1 ''b'')])]),
      journal =
        [Mkdir (Destination, [''sub'']),
         Copied (Source, [''a.txt'']) (Destination, [''a.txt'']),
         Copied (Source, [''sub'', ''b.txt'']) (Destination, [''sub'', ''b.txt'']),
         Removed (Destination, [''old.txt'']),
         Removed (Destination, [''._a.txt'']),
         Removed (Destination, [''stale'', ''f'']),
         Rmdir (Destination, [''keep'', ''sub'']),
         Rmdir (Destination, [''stale'']),
         Rmdir (Destination, [''keep''])]\<rparr>"

definition demo_run :: run where
  "demo_run =
     \<lparr>src_files = [((Source, [''a.txt'']), [''a.txt'']),
                   ((Source, [''sub'', ''b.txt'']), [''sub'', ''b.txt''])],
      copy_tasks = [((Source, [''a.txt'']), [''a.txt'']),
                    ((Source, [''sub'', ''b.txt'']), [''sub'', ''b.txt''])],
      dst_files = [((Destination, [''a.txt'']), [''a.txt'']),
                   ((Destination, [''old.txt'']), [''old.txt'']),
                   ((Destination, [''._a.txt'']), [''._a.txt'']),
                   ((Destination, [''stale'', ''f'']), [''stale'', ''f''])],
      delete_tasks = [(Destination, [''old.txt'']), (Destination, [''._a.txt'']),
                      (Destination, [''stale'', ''f''])],
      after = demo_after\<rparr>"

text \<open>A directory with no entry.\<close>

definition empty_dir :: "world \<Rightarrow> apath \<Rightarrow> bool" where
  "empty_dir w a \<longleftrightarrow> (\<exists>m. os_stat w a = Some (Dir m []))"

text \<open>
  The kinds of event each phase of a run writes to the journal, and \<open>evolves P d w w'\<close>: the
  world \<open>w'\<close> comes from \<open>w\<close> by changes under the root \<open>d\<close> only, each journalled as an
  event of kind \<open>P\<close>.
\<close>

definition is_mkdir :: "event \<Rightarrow> bool" where
  "is_mkdir e = (case e of Mkdir a \<Rightarrow> True | _ \<Rightarrow> False)"

definition copy_event :: "event \<Rightarrow> bool" where
  "copy_event e = (case e of Copied a b \<Rightarrow> True | Failed a x \<Rightarrow> True | _ \<Rightarrow> False)"

definition delete_event :: "event \<Rightarrow> bool" where
  "delete_event e = (case e of Removed a \<Rightarrow> True | Failed a x \<Rightarrow> True | _ \<Rightarrow> False)"

definition rmdir_event :: "event \<Rightarrow> bool" where
  "rmdir_event e = (case e of Rmdir a \<Rightarrow> True | Warning p \<Rightarrow> True | Failed a x \<Rightarrow> True | _ \<Rightarrow> False)"

definition evolves :: "(event \<Rightarrow> bool) \<Rightarrow> root \<Rightarrow> world \<Rightarrow> world \<Rightarrow> bool" where
  "evolves P d w w' \<longleftrightarrow>
     (\<exists>es. journal w' = journal w @ es \<and> (\<forall>e \<in> set es. P e)) \<and>
     (\<forall>r. r \<noteq> d \<longrightarrow> tree_of w' r = tree_of w r) \<and>
     (wf_world w \<longrightarrow> wf_world w')"

definition demo_created :: world where
  "demo_created =
     \<lparr>source = Some (Dir 0 [(''a.txt'', File 5 ''v2''),
                            (''sub'', Dir 0 [(''b.txt'', File 1 ''b'')]),
                            (''.DS_Store'', File 1 ''s'')]),
      destination = Some (Dir 0 [(''a.txt'', File 3 ''v1''),
                                 (''old.txt'', File 2 ''x''),
                                 (''._a.txt'', File 1 ''j''),
                                 (''stale'', Dir 0 [(''f'', File 1 ''f'')]),
                                 (''keep'', Dir 0 [(''sub'', Dir 0 [])]),
                                 (''sub'', Dir 10 [])]),
      journal = [Mkdir (Destination, [''sub''])]\<rparr>"

definition rod_world :: world where
  "rod_world =
     \<lparr>source = Some (Dir 0 [(''sub'', Dir 0 [])]),
      destination = Some (Dir 0 [(''sub'', Dir 0 []),
                                 (''stale'', Dir 0 [(''f'', File 1 ''f'')]),
                                 (''keep'', Dir 0 [(''sub'', Dir 0 [])])]),
      journal = []\<rparr>"

definition rod_after :: world where
  "rod_after =
     \<lparr>source = Some (Dir 0 [(''sub'', Dir 0 [])]),
      destination = Some (Dir 0 [(''sub'', Dir 0 []),
                                 (''stale'', Dir 0 [(''f'', File 1 ''f'')])]),
      journal = [Rmdir (Destination, [''keep'', ''sub'']), Warning [''stale''],
                 Rmdir (Destination, [''keep''])]\<rparr>"

section \<open>The skip predicate\<close>

lemma skip_files_split: "skip_files = insert ''._.DS_Store'' skip_files_reduced"
  unfolding skip_files_def skip_files_reduced_def by (simp only: insert_commute)

lemma resource_fork_prefix: "prefix ''._'' ''._.DS_Store''"
  by simp

text \<open>
  Claim C10. Taking \<^verbatim>\<open>'._.DS_Store'\<close> out of the skip set changes nothing: the name starts
  with \<^verbatim>\<open>'._'\<close>, so the prefix rule already answers true for it, and the two predicates are
  the same function.
\<close>

theorem skip_entry_redundant:
  "should_skip_file_reduced = should_skip_file \<and> prefix ''._'' ''._.DS_Store''"
proof -
  have "should_skip_file_reduced f = should_skip_file f" for f
    unfolding should_skip_file_reduced_def should_skip_file_def skip_files_split
    using resource_fork_prefix by (cases "f = ''._.DS_Store''") simp_all
  then show ?thesis using resource_fork_prefix by (simp only: fun_eq_iff simp_thms)
qed

section \<open>The change classifier\<close>

text \<open>
  Claim C1. \<^verbatim>\<open>should_copy(src, dst)\<close> answers true when \<^verbatim>\<open>dst\<close> does not exist; when
  \<^verbatim>\<open>dst\<close> exists and the modification time of \<^verbatim>\<open>src\<close> is strictly greater than that of
  \<^verbatim>\<open>dst\<close>, it answers true exactly when the two digests differ; and when the modification
  time of \<^verbatim>\<open>dst\<close> is greater than or equal to that of \<^verbatim>\<open>src\<close> it answers false, whatever
  the contents are.
\<close>

theorem should_copy_cases:
  "(\<not> path_exists w dst \<longrightarrow> should_copy H w src dst = Inr True) \<and>
   (path_exists w dst \<and> os_getmtime w src = Inr ms \<and> os_getmtime w dst = Inr md \<and> ms > md \<and>
      file_hash H w src = Inr h1 \<and> file_hash H w dst = Inr h2
        \<longrightarrow> should_copy H w src dst = Inr (h1 \<noteq> h2)) \<and>
   (os_getmtime w src = Inr ms \<and> os_getmtime w dst = Inr md \<and> md \<ge> ms
        \<longrightarrow> should_copy H w src dst = Inr False)"
  by (simp add: should_copy_def path_exists_def os_getmtime_def split: option.splits)

theorem should_copy_cases_witness:
  "should_copy id two_files (Source, [''c'']) (Destination, [''c'']) = Inr True \<and>
   should_copy id two_files (Source, [''b'']) (Destination, [''b'']) = Inr True \<and>
   should_copy (\<lambda>c. ()) two_files (Source, [''b'']) (Destination, [''b'']) = Inr False \<and>
   should_copy id two_files (Source, [''a'']) (Destination, [''a'']) = Inr False \<and>
   file_hash id two_files (Source, [''a'']) = Inr ''new'' \<and>
   file_hash id two_files (Destination, [''a'']) = Inr ''old''"
proof -
  have ex: "\<not> path_exists two_files (Destination, [''c''])"
    "path_exists two_files (Destination, [''b''])"
    by (simp_all add: path_exists_def os_stat_def two_files_def)
  have mt: "os_getmtime two_files (Source, [''b'']) = Inr 9"
    "os_getmtime two_files (Destination, [''b'']) = Inr 3"
    "os_getmtime two_files (Source, [''a'']) = Inr 5"
    "os_getmtime two_files (Destination, [''a'']) = Inr 5"
    by (simp_all add: os_getmtime_def os_stat_def two_files_def)
  have fh: "file_hash id two_files (Source, [''b'']) = Inr ''same''"
    "file_hash id two_files (Destination, [''b'']) = Inr ''text''"
    "file_hash (\<lambda>c. ()) two_files (Source, [''b'']) = Inr ()"
    "file_hash (\<lambda>c. ()) two_files (Destination, [''b'']) = Inr ()"
    "file_hash id two_files (Source, [''a'']) = Inr ''new''"
    "file_hash id two_files (Destination, [''a'']) = Inr ''old''"
    by (simp_all add: file_hash_def os_stat_def two_files_def)
  show ?thesis
    using should_copy_cases [where w = two_files and dst = "(Destination, [''c''])" and H = id
        and src = "(Source, [''c''])"]
      should_copy_cases [where w = two_files and dst = "(Destination, [''b''])" and H = id
        and src = "(Source, [''b''])" and ms = 9 and md = 3 and ?h1.0 = "''same''"
        and ?h2.0 = "''text''"]
      should_copy_cases [where w = two_files and dst = "(Destination, [''b''])"
        and H = "\<lambda>c. ()" and src = "(Source, [''b''])" and ms = 9 and md = 3
        and ?h1.0 = "()" and ?h2.0 = "()"]
      should_copy_cases [where w = two_files and dst = "(Destination, [''a''])" and H = id
        and src = "(Source, [''a''])" and ms = 5 and md = 5]
      ex mt fh
    by simp
qed

section \<open>The chunks of the copy phase\<close>

lemma range_step_concat:
  "0 < k \<Longrightarrow> concat (map (\<lambda>i. slice xs i (i + k)) (range_step i (length xs) k)) = drop i xs"
proof (induction i "length xs" k rule: range_step.induct)
  case (1 i step)
  show ?case
  proof (cases "i < length xs")
    case True
    have "concat (map (\<lambda>i. slice xs i (i + step)) (range_step i (length xs) step))
        = slice xs i (i + step)
          @ concat (map (\<lambda>i. slice xs i (i + step)) (range_step (i + step) (length xs) step))"
      using True 1(2) by (subst range_step.simps) simp
    also have "\<dots> = take step (drop i xs) @ drop (i + step) xs"
      using 1(1)[OF _ True 1(2)] 1(2) by (simp add: slice_def)
    also have "\<dots> = drop i xs"
      by (metis add.commute append_take_drop_id drop_drop)
    finally show ?thesis .
  next
    case False
    then show ?thesis using 1(2) by (subst range_step.simps) simp
  qed
qed

lemma range_step_nth:
  "0 < k \<Longrightarrow> j < length (range_step i stop k) \<Longrightarrow>
     range_step i stop k ! j = i + j * k \<and> i + j * k < stop"
proof (induction i stop k arbitrary: j rule: range_step.induct)
  case (1 i stop step)
  from 1(3) have lt: "i < stop"
    by (subst (asm) range_step.simps) (simp split: if_splits)
  have unf: "range_step i stop step = i # range_step (i + step) stop step"
    using lt 1(2) by (subst range_step.simps) simp
  show ?case
  proof (cases j)
    case 0
    then show ?thesis using unf lt by simp
  next
    case (Suc j')
    with 1(3) unf have "j' < length (range_step (i + step) stop step)" by simp
    from 1(1)[OF _ lt 1(2) this] 1(2) show ?thesis
      using unf Suc by (simp add: algebra_simps)
  qed
qed

lemma num_processes_pos: "0 < cpu \<Longrightarrow> 0 < num_processes cpu n"
  by (simp add: num_processes_def)

text \<open>
  Claim C9. With a copy set that is not empty (and at least one processor), the number of
  worker processes is \<open>min cpu (max 1 (copy_count div 100))\<close>, the chunk size is
  \<open>copy_count div N + 1\<close>, every chunk is the next run of that many tasks (the last one may
  be shorter, none is empty), and the chunks in order, put end to end, are the copy tasks:
  each task is in exactly one chunk.
\<close>

theorem chunks_partition:
  assumes "tasks \<noteq> []" and "0 < cpu"
  shows "num_processes cpu (length tasks) = min cpu (max 1 (length tasks div 100)) \<and>
         0 < num_processes cpu (length tasks) \<and>
         chunk_size cpu (length tasks) = length tasks div num_processes cpu (length tasks) + 1 \<and>
         concat (chunks cpu tasks) = tasks \<and>
         (\<forall>j < length (chunks cpu tasks).
            chunks cpu tasks ! j \<noteq> [] \<and>
            chunks cpu tasks ! j =
              take (chunk_size cpu (length tasks)) (drop (j * chunk_size cpu (length tasks)) tasks))"
proof -
  let ?k = "chunk_size cpu (length tasks)"
  have k: "0 < ?k" by (simp add: chunk_size_def)
  have cc: "concat (chunks cpu tasks) = tasks"
    unfolding chunks_def using range_step_concat[OF k, of tasks 0] by simp
  have nth: "chunks cpu tasks ! j \<noteq> [] \<and> chunks cpu tasks ! j = take ?k (drop (j * ?k) tasks)"
    if "j < length (chunks cpu tasks)" for j
  proof -
    from that have j: "j < length (range_step 0 (length tasks) ?k)"
      by (simp add: chunks_def)
    from range_step_nth[OF k j] have r: "range_step 0 (length tasks) ?k ! j = j * ?k"
      and lt: "j * ?k < length tasks" by simp_all
    have "chunks cpu tasks ! j = take ?k (drop (j * ?k) tasks)"
      using j r by (simp add: chunks_def slice_def)
    moreover have "take ?k (drop (j * ?k) tasks) \<noteq> []"
      using k lt by simp
    ultimately show ?thesis by simp
  qed
  have "num_processes cpu (length tasks) = min cpu (max 1 (length tasks div 100))"
    by (simp add: num_processes_def)
  moreover have "chunk_size cpu (length tasks) = length tasks div num_processes cpu (length tasks) + 1"
    by (simp add: chunk_size_def)
  ultimately show ?thesis
    using cc nth num_processes_pos[OF assms(2)] by blast
qed

theorem chunks_partition_witness:
  "replicate 200 () \<noteq> [] \<and> (0::nat) < 2 \<and> num_processes 2 200 = 2 \<and> chunk_size 2 200 = 101 \<and>
   map length (chunks 2 (replicate 200 ())) = [101, 99] \<and>
   concat (chunks 2 (replicate 200 ())) = replicate 200 ()"
proof -
  have ne: "replicate 200 () \<noteq> []" by simp
  have "map length (chunks 2 (replicate 200 ())) = [101, 99]" by code_simp
  moreover have "num_processes 2 200 = 2" "chunk_size 2 200 = 101" by code_simp+
  ultimately show ?thesis
    using ne chunks_partition [OF ne, of 2] by simp
qed

section \<open>Lemmas on the file system\<close>

lemma shape_simps [simp]: "shape (File m c) = Inl (m, c)" "shape (Dir m es) = Inr m"
  by (simp_all add: shape_def)

lemma lookup_entries_map_of:
  "lookup_entries es n p = (case map_of es n of None \<Rightarrow> None | Some c \<Rightarrow> lookup c p)"
  by (induction es) auto

lemma lookup_Dir_Cons [simp]:
  "lookup (Dir m es) (n # p) = (case map_of es n of None \<Rightarrow> None | Some c \<Rightarrow> lookup c p)"
  by (simp add: lookup_entries_map_of)

declare lookup.simps(3) [simp del]

lemma lookup_append:
  "lookup t (p @ q) = (case lookup t p of None \<Rightarrow> None | Some c \<Rightarrow> lookup c q)"
proof (induction p arbitrary: t)
  case Nil
  then show ?case by simp
next
  case (Cons n p)
  show ?case
    by (cases t) (simp_all add: lookup_entries_map_of Cons.IH split: option.splits)
qed

lemma modify_entries_eq:
  "modify_entries f n p es =
     (case map_of es n of None \<Rightarrow> es | Some c \<Rightarrow> AList.update n (modify f p c) es)"
  by (induction es) (auto split: option.splits)

lemma modify_not_dir:
  "(\<And>m es. lookup t q \<noteq> Some (Dir m es)) \<Longrightarrow> modify f q t = t"
proof (induction q arbitrary: t)
  case Nil
  then show ?case by (cases t) auto
next
  case (Cons n q)
  show ?case
  proof (cases t)
    case (File m c)
    then show ?thesis by simp
  next
    case (Dir m es)
    show ?thesis
    proof (cases "map_of es n")
      case None
      then show ?thesis using Dir by (simp add: modify_entries_eq)
    next
      case (Some c)
      with Cons.prems Dir have "\<And>m es. lookup c q \<noteq> Some (Dir m es)"
        by (simp add: lookup_Dir_Cons)
      from Cons.IH[OF this] Some Dir show ?thesis
        by (simp add: modify_entries_eq update_triv)
    qed
  qed
qed

lemma obs_modify_other:
  "\<not> strict_prefix q p \<Longrightarrow> obs (modify f q t) p = obs t p"
proof (induction q arbitrary: t p)
  case Nil
  then show ?case by (cases t; cases p) (auto simp: obs_def)
next
  case (Cons n q)
  show ?case
  proof (cases t)
    case (File m c)
    then show ?thesis by simp
  next
    case (Dir m es)
    show ?thesis
    proof (cases p)
      case Nil
      then show ?thesis using Dir by (simp add: obs_def)
    next
      case (Cons k r)
      show ?thesis
      proof (cases "map_of es n")
        case None
        then show ?thesis using Dir by (simp add: modify_entries_eq)
      next
        case (Some c)
        show ?thesis
        proof (cases "k = n")
          case True
          with Cons.prems \<open>p = k # r\<close> have "\<not> strict_prefix q r" by simp
          from Cons.IH[OF this] show ?thesis
            using Dir Some True \<open>p = k # r\<close>
            by (simp add: obs_def lookup_Dir_Cons modify_entries_eq update_conv')
        next
          case False
          then show ?thesis
            using Dir Some \<open>p = k # r\<close>
            by (simp add: obs_def lookup_Dir_Cons modify_entries_eq update_conv')
        qed
      qed
    qed
  qed
qed

lemma lookup_modify_at:
  "lookup t q = Some (Dir m es) \<Longrightarrow> lookup (modify f q t) q = Some (Dir m (f es))"
proof (induction q arbitrary: t)
  case Nil
  then show ?case by simp
next
  case (Cons n q)
  then show ?case
    by (cases t) (auto simp: lookup_Dir_Cons modify_entries_eq update_conv' split: option.splits)
qed

lemma lookup_modify_below:
  "lookup t q = Some (Dir m es) \<Longrightarrow> lookup (modify f q t) (q @ r) = lookup (Dir m (f es)) r"
  by (simp add: lookup_append lookup_modify_at)

lemma obs_Nil [simp]: "obs t [] = Some (shape t)"
  by (simp add: obs_def)

lemma obs_File_Cons [simp]: "obs (File m c) (n # p) = None"
  by (simp add: obs_def)

lemma obs_Dir_Cons:
  "obs (Dir m es) (n # p) = (case map_of es n of None \<Rightarrow> None | Some c \<Rightarrow> obs c p)"
  by (simp add: obs_def split: option.splits)

lemma obs_append:
  "obs t (p @ q) = (case lookup t p of None \<Rightarrow> None | Some c \<Rightarrow> obs c q)"
  by (simp add: obs_def lookup_append split: option.splits)

lemma tree_of_set_tree [simp]:
  "tree_of (set_tree w r t) r' = (if r' = r then t else tree_of w r')"
  by (cases r; cases r') simp_all

lemma journal_set_tree [simp]: "journal (set_tree w r t) = journal w"
  by (cases r) simp_all

lemma tree_of_emit [simp]: "tree_of (emit e w) r = tree_of w r"
  by (cases r) (simp_all add: emit_def)

lemma journal_emit [simp]: "journal (emit e w) = journal w @ [e]"
  by (simp add: emit_def)

lemma os_stat_emit [simp]: "os_stat (emit e w) a = os_stat w a"
  by (simp add: os_stat_def)

lemma view_emit [simp]: "view (emit e w) = view w"
  by (simp add: view_def fun_eq_iff)

lemma journal_upd_dir [simp]: "journal (upd_dir w a f) = journal w"
  by (simp add: upd_dir_def)

lemma tree_of_upd_dir_other [simp]: "r \<noteq> fst a \<Longrightarrow> tree_of (upd_dir w a f) r = tree_of w r"
  by (simp add: upd_dir_def)

lemma view_root_missing: "tree_of w (fst b) = None \<Longrightarrow> view w b = None"
  by (simp add: view_def os_stat_def)

lemma view_upd_dir:
  assumes st: "os_stat w (r, q) = Some (Dir m es)"
    and f: "map_of (f es) = (map_of es)(n := x)"
  shows "view (upd_dir w (r, q) f) b =
           (if fst b = r \<and> prefix (q @ [n]) (snd b)
            then (case x of None \<Rightarrow> None | Some c \<Rightarrow> obs c (drop (Suc (length q)) (snd b)))
            else view w b)"
proof (cases "fst b = r")
  case False
  then show ?thesis by (simp add: view_def os_stat_def upd_dir_def)
next
  case True
  from st obtain t where t: "tree_of w r = Some t" and lq: "lookup t q = Some (Dir m es)"
    by (auto simp: os_stat_def split: option.splits)
  have v': "view (upd_dir w (r, q) f) b = obs (modify f q t) (snd b)"
    using True t by (simp add: view_def os_stat_def upd_dir_def obs_def)
  have v: "view w b = obs t (snd b)"
    using True t by (simp add: view_def os_stat_def obs_def)
  show ?thesis
  proof (cases "strict_prefix q (snd b)")
    case False
    then have "\<not> prefix (q @ [n]) (snd b)"
      by (metis prefix_order.dual_order.strict_trans1 prefix_snoc strict_prefixI' prefix_order.less_le append_prefixD)
    with False show ?thesis by (simp add: v v' obs_modify_other)
  next
    case sp: True
    then obtain k p where p: "snd b = q @ k # p"
      by (metis strict_prefixE')
    have "obs (modify f q t) (q @ k # p) = obs (Dir m (f es)) (k # p)"
      using lookup_modify_below[OF lq, of f "k # p"] by (simp add: obs_def)
    also have "\<dots> = (if k = n then (case x of None \<Rightarrow> None | Some c \<Rightarrow> obs c p)
         else obs (Dir m es) (k # p))"
      by (simp add: obs_Dir_Cons f)
    also have "obs (Dir m es) (k # p) = obs t (q @ k # p)"
      using lq by (simp add: obs_append)
    finally show ?thesis
      using True p by (simp add: v v' cong: option.case_cong)
  qed
qed

lemma view_below_missing:
  "view w (r, q) = None \<Longrightarrow> prefix q p \<Longrightarrow> view w (r, p) = None"
  by (auto simp: view_def os_stat_def prefix_def lookup_append split: option.splits)

lemma view_file_stat:
  "view w a = Some (Inl (m, c)) \<longleftrightarrow> os_stat w a = Some (File m c)"
proof (cases "os_stat w a")
  case None
  then show ?thesis by (simp add: view_def)
next
  case (Some t)
  then show ?thesis by (cases t) (simp_all add: view_def)
qed

lemma view_dir_stat:
  "view w a = Some (Inr m) \<longleftrightarrow> (\<exists>es. os_stat w a = Some (Dir m es))"
proof (cases "os_stat w a")
  case None
  then show ?thesis by (simp add: view_def)
next
  case (Some t)
  then show ?thesis by (cases t) (simp_all add: view_def)
qed

lemma view_below_file:
  assumes a: "view w (r, q) = Some (Inl mc)" and b: "strict_prefix q p"
  shows "view w (r, p) = None"
proof -
  from b obtain k p' where p: "p = q @ k # p'" by (metis strict_prefixE')
  obtain m c where "mc = (m, c)" by (cases mc)
  with a have "os_stat w (r, q) = Some (File m c)" by (simp add: view_file_stat)
  then show ?thesis
    by (auto simp: view_def os_stat_def p lookup_append split: option.splits)
qed

lemma view_child:
  "os_stat w (r, q) = Some (Dir m es) \<Longrightarrow>
     view w (r, q @ [n]) = map_option shape (map_of es n)"
  by (auto simp: view_def os_stat_def lookup_append split: option.splits)

lemma view_below_empty:
  "os_stat w (r, q) = Some (Dir m []) \<Longrightarrow> strict_prefix q p \<Longrightarrow> view w (r, p) = None"
proof -
  assume a: "os_stat w (r, q) = Some (Dir m [])" and b: "strict_prefix q p"
  from b obtain k p' where p: "p = q @ k # p'" by (metis strict_prefixE')
  from a show ?thesis
    by (auto simp: view_def os_stat_def p lookup_append split: option.splits)
qed

lemma snoc_butlast: "p \<noteq> [] \<Longrightarrow> butlast p @ [last p] = p"
  by simp

lemma wf_entries_iff: "wf_entries es \<longleftrightarrow> (\<forall>e \<in> set es. wf_node (snd e))"
  by (induction es) auto

lemma wf_lookup: "wf_node t \<Longrightarrow> lookup t q = Some c \<Longrightarrow> wf_node c"
proof (induction q arbitrary: t)
  case Nil
  then show ?case by simp
next
  case (Cons n q)
  from Cons.prems obtain m es c' where t: "t = Dir m es" and c': "map_of es n = Some c'"
    and l: "lookup c' q = Some c"
    by (cases t) (auto split: option.splits)
  from c' have "(n, c') \<in> set es" by (rule map_of_SomeD)
  with Cons.prems(1) t have "wf_node c'" by (auto simp: wf_entries_iff)
  from Cons.IH[OF this l] show ?case .
qed

lemma set_update_subset: "set (AList.update k v al) \<subseteq> insert (k, v) (set al)"
  by (induction al) auto

lemma wf_modify:
  assumes "wf_node t"
    and "\<And>m es. lookup t q = Some (Dir m es) \<Longrightarrow> distinct (map fst es) \<Longrightarrow> wf_entries es
           \<Longrightarrow> distinct (map fst (f es)) \<and> wf_entries (f es)"
  shows "wf_node (modify f q t)"
  using assms
proof (induction q arbitrary: t)
  case Nil
  then show ?case by (cases t) auto
next
  case (Cons n q)
  show ?case
  proof (cases t)
    case (File m c)
    then show ?thesis by simp
  next
    case (Dir m es)
    show ?thesis
    proof (cases "map_of es n")
      case None
      then show ?thesis using Cons.prems(1) Dir by (simp add: modify_entries_eq)
    next
      case (Some c)
      then have "(n, c) \<in> set es" by (rule map_of_SomeD)
      with Cons.prems(1) Dir have wfc: "wf_node c" by (auto simp: wf_entries_iff)
      have "wf_node (modify f q c)"
      proof (rule Cons.IH[OF wfc])
        fix m' es'
        assume "lookup c q = Some (Dir m' es')" "distinct (map fst es')" "wf_entries es'"
        with Cons.prems(2)[of m' es'] Dir Some
        show "distinct (map fst (f es')) \<and> wf_entries (f es')" by simp
      qed
      moreover have "distinct (map fst (AList.update n (modify f q c) es))"
        using Cons.prems(1) Dir by (simp add: distinct_update)
      moreover have "\<forall>e \<in> set es. wf_node (snd e)"
        using Cons.prems(1) Dir by (simp add: wf_entries_iff)
      ultimately show ?thesis
        using Dir Some set_update_subset[of n "modify f q c" es]
        by (auto simp: modify_entries_eq wf_entries_iff)
    qed
  qed
qed

lemma wf_world_iff: "wf_world w \<longleftrightarrow> (\<forall>r. wf_tree (tree_of w r))"
proof
  assume "wf_world w"
  then show "\<forall>r. wf_tree (tree_of w r)"
    by (auto simp: wf_world_def intro: root.induct)
next
  assume "\<forall>r. wf_tree (tree_of w r)"
  then have "wf_tree (tree_of w Source)" "wf_tree (tree_of w Destination)" by blast+
  then show "wf_world w" by (simp add: wf_world_def)
qed

lemma wf_world_emit [simp]: "wf_world (emit e w) = wf_world w"
  by (simp add: wf_world_iff)

lemma wf_world_set_tree: "wf_world w \<Longrightarrow> wf_tree x \<Longrightarrow> wf_world (set_tree w r x)"
  by (simp add: wf_world_iff)

lemma wf_world_upd_dir:
  assumes "wf_world w" and st: "os_stat w (r, q) = Some (Dir m es)"
    and f: "distinct (map fst es) \<Longrightarrow> wf_entries es
           \<Longrightarrow> distinct (map fst (f es)) \<and> wf_entries (f es)"
  shows "wf_world (upd_dir w (r, q) f)"
proof -
  from st obtain t where t: "tree_of w r = Some t" and l: "lookup t q = Some (Dir m es)"
    by (cases "tree_of w r") (auto simp: os_stat_def)
  from assms(1) t have wft: "wf_node t" by (auto simp: wf_world_iff wf_tree_def split: option.splits)
  have "wf_node (modify f q t)"
    by (rule wf_modify[OF wft]) (use l f in auto)
  then show ?thesis
    using assms(1) t by (simp add: wf_world_iff upd_dir_def wf_tree_def)
qed

lemma point_upd_entry:
  assumes st: "os_stat w (r, butlast p) = Some (Dir m es)" and p: "p \<noteq> []"
    and f: "map_of (f es) = (map_of es)(last p := map_option (\<lambda>s. c) x)"
    and leaf: "\<And>q. q \<noteq> [] \<Longrightarrow> obs c q = None" "x \<noteq> None \<Longrightarrow> x = Some (shape c)"
    and below: "\<And>q. strict_prefix p q \<Longrightarrow> view w (r, q) = None"
    and wf: "distinct (map fst es) \<Longrightarrow> wf_entries es
           \<Longrightarrow> distinct (map fst (f es)) \<and> wf_entries (f es)"
  shows "point_upd w (r, p) x e (emit e (upd_dir w (r, butlast p) f))"
proof -
  have wfw: "wf_world (upd_dir w (r, butlast p) f)" if "wf_world w"
    by (rule wf_world_upd_dir[where f = f, OF that st wf])
  have "view (upd_dir w (r, butlast p) f) b = ((view w)((r, p) := x)) b" for b
  proof -
    have "view (upd_dir w (r, butlast p) f) b =
           (if fst b = r \<and> prefix p (snd b)
            then (case map_option (\<lambda>s. c) x of None \<Rightarrow> None
                  | Some c \<Rightarrow> obs c (drop (Suc (length (butlast p))) (snd b)))
            else view w b)"
      using view_upd_dir[where f = f and n = "last p" and b = b, OF st f] p by simp
    also have "\<dots> = ((view w)((r, p) := x)) b"
    proof (cases "fst b = r \<and> prefix p (snd b)")
      case False
      then show ?thesis by (cases b) auto
    next
      case True
      show ?thesis
      proof (cases "snd b = p")
        case True
        with \<open>fst b = r \<and> prefix p (snd b)\<close> have "b = (r, p)" by (cases b) simp
        then show ?thesis using p leaf(2) by (cases x) (simp_all)
      next
        case False
        with True have sp: "strict_prefix p (snd b)" by (simp add: strict_prefix_def)
        then have "drop (Suc (length (butlast p))) (snd b) \<noteq> []"
          using p by (auto simp: strict_prefix_def prefix_def)
        from leaf(1)[OF this] below[OF sp] True False show ?thesis
          by (cases b; cases x) auto
      qed
    qed
    finally show ?thesis .
  qed
  then show ?thesis
    using wfw by (auto simp: point_upd_def fun_eq_iff)
qed

lemma os_mkdir_point:
  assumes "os_mkdir now w a = Inr w'"
  shows "point_upd w a (Some (Inr now)) (Mkdir a) w' \<and> view w a = None"
proof (cases "snd a = []")
  case True
  with assms have none: "tree_of w (fst a) = None"
    and w': "w' = emit (Mkdir a) (set_tree w (fst a) (Some (Dir now [])))"
    by (auto simp: os_mkdir_def split: option.splits)
  have "view w' b = ((view w)(a := Some (Inr now))) b" for b
  proof (cases "fst b = fst a")
    case False
    then show ?thesis by (auto simp: w' view_def os_stat_def)
  next
    case same: True
    then have "view w b = None" using none by (simp add: view_root_missing)
    moreover have "view w' b = (if snd b = [] then Some (Inr now) else None)"
      using same by (cases "snd b") (simp_all add: w' view_def os_stat_def)
    ultimately show ?thesis using same True by (cases a; cases b) auto
  qed
  moreover have "view w a = None" using none by (simp add: view_root_missing)
  moreover have "wf_world w'" if "wf_world w"
    unfolding w' using that by (simp add: wf_world_set_tree wf_tree_def)
  ultimately show ?thesis
    by (auto simp: point_upd_def fun_eq_iff w')
next
  case False
  obtain r p where a: "a = (r, p)" by (cases a)
  with False have p: "p \<noteq> []" by simp
  from assms a p obtain m es where st: "os_stat w (r, butlast p) = Some (Dir m es)"
    and fresh: "last p \<notin> fst ` set es"
    and w': "w' = emit (Mkdir a) (upd_dir w (r, butlast p) (\<lambda>es. es @ [(last p, Dir now [])]))"
    by (auto simp: os_mkdir_def dirname_def split: option.splits node.splits if_splits)
  have none: "map_of es (last p) = None"
    using fresh by (simp add: map_of_eq_None_iff)
  have va: "view w (r, p) = None"
    using view_child[OF st, of "last p"] none p by simp
  have f: "map_of (es @ [(last p, Dir now [])])
      = (map_of es)(last p := map_option (\<lambda>s. Dir now []) (Some (Inr now)))"
    using none by (auto simp: fun_eq_iff map_add_def split: option.splits)
  have "point_upd w (r, p) (Some (Inr now)) (Mkdir a) w'"
    unfolding w'
  proof (rule point_upd_entry[OF st p])
    show "map_of (es @ [(last p, Dir now [])])
      = (map_of es)(last p := map_option (\<lambda>s. Dir now []) (Some (Inr now)))" by (rule f)
    show "obs (Dir now []) q = None" if "q \<noteq> []" for q
      using that by (cases q) (simp_all add: obs_Dir_Cons)
    show "Some (Inr now) = Some (shape (Dir now []))" by simp
    show "view w (r, q) = None" if "strict_prefix p q" for q
      using view_below_missing[OF va] that by (simp add: strict_prefix_def)
    show "distinct (map fst (es @ [(last p, Dir now [])])) \<and> wf_entries (es @ [(last p, Dir now [])])"
      if "distinct (map fst es)" "wf_entries es"
      using that fresh by (auto simp: wf_entries_iff)
  qed
  then show ?thesis using va a by simp
qed

lemma stat_parent_dir:
  assumes "os_stat w (r, p) = Some x" and "p \<noteq> []"
  shows "\<exists>m es. os_stat w (r, butlast p) = Some (Dir m es) \<and> map_of es (last p) = Some x"
proof -
  from assms(1) obtain t where t: "tree_of w r = Some t" and l: "lookup t p = Some x"
    by (auto simp: os_stat_def split: option.splits)
  from l have "lookup t (butlast p @ [last p]) = Some x" using assms(2) by simp
  then obtain c where c: "lookup t (butlast p) = Some c" and x: "lookup c [last p] = Some x"
    by (auto simp only: lookup_append split: option.splits)
  from x obtain m es where "c = Dir m es" "map_of es (last p) = Some x"
    by (cases c) (auto split: option.splits)
  with c t show ?thesis by (simp add: os_stat_def)
qed

lemma point_upd_root:
  assumes "\<And>q. q \<noteq> [] \<Longrightarrow> view w (r, q) = None"
    and "\<And>q. view w' (r, q) = (if q = [] then x else None)"
    and "\<And>r'. r' \<noteq> r \<Longrightarrow> tree_of w' r' = tree_of w r'"
    and "journal w' = journal w @ [e]"
    and "wf_world w \<Longrightarrow> wf_world w'"
  shows "point_upd w (r, []) x e w'"
proof -
  have "view w' b = ((view w)((r, []) := x)) b" for b
  proof (cases "fst b = r")
    case True
    then show ?thesis using assms(1)[of "snd b"] assms(2)[of "snd b"] by (cases b) auto
  next
    case False
    then show ?thesis using assms(3)[of "fst b"] by (cases b) (auto simp: view_def os_stat_def)
  qed
  then show ?thesis using assms(3,4,5) by (auto simp: point_upd_def fun_eq_iff)
qed

lemma unlink_point:
  assumes st: "os_stat w (r, p) = Some x"
    and leaf: "\<And>q. strict_prefix p q \<Longrightarrow> view w (r, q) = None"
  shows "point_upd w (r, p) None e
           (emit e (if p = [] then set_tree w r None
                    else upd_dir w (dirname (r, p)) (AList.delete (last p))))"
proof (cases "p = []")
  case True
  have "point_upd w (r, []) None e (emit e (set_tree w r None))"
  proof (rule point_upd_root)
    show "view w (r, q) = None" if "q \<noteq> []" for q
      using leaf[of q] that True by (simp add: strict_prefix_def)
    show "view (emit e (set_tree w r None)) (r, q) = (if q = [] then None else None)" for q
      by (simp add: view_def os_stat_def)
    show "wf_world (emit e (set_tree w r None))" if "wf_world w"
      using that by (simp add: wf_world_set_tree wf_tree_def)
  qed simp_all
  then show ?thesis using True by simp
next
  case False
  from stat_parent_dir[OF st False] obtain m es
    where par: "os_stat w (r, butlast p) = Some (Dir m es)" by blast
  have "point_upd w (r, p) None e (emit e (upd_dir w (r, butlast p) (AList.delete (last p))))"
  proof (rule point_upd_entry[OF par False, where c = "File 0 []"])
    show "map_of (AList.delete (last p) es) = (map_of es)(last p := map_option (\<lambda>s. File 0 []) None)"
      by (simp add: delete_conv')
    show "view w (r, q) = None" if "strict_prefix p q" for q by (rule leaf[OF that])
    show "obs (File 0 []) q = None" if "q \<noteq> []" for q using that by (cases q) simp_all
    show "distinct (map fst (AList.delete (last p) es)) \<and> wf_entries (AList.delete (last p) es)"
      if "distinct (map fst es)" "wf_entries es"
    proof
      show "distinct (map fst (AList.delete (last p) es))" using that(1) by (rule distinct_delete)
      show "wf_entries (AList.delete (last p) es)"
        using that(2) by (auto simp: wf_entries_iff AList.delete_eq)
    qed
  qed simp
  then show ?thesis using False by (simp add: dirname_def)
qed

lemma os_remove_point:
  assumes "os_remove w a = Inr w'"
  shows "\<exists>m c. view w a = Some (Inl (m, c)) \<and> point_upd w a None (Removed a) w'"
proof -
  obtain r p where a: "a = (r, p)" by (cases a)
  from assms obtain m c where st: "os_stat w (r, p) = Some (File m c)"
    and w': "w' = emit (Removed a) (if p = [] then set_tree w r None
                    else upd_dir w (dirname (r, p)) (AList.delete (last p)))"
    by (auto simp: os_remove_def a split: option.splits node.splits)
  have v: "view w (r, p) = Some (Inl (m, c))" using st by (simp add: view_file_stat)
  have "point_upd w (r, p) None (Removed a) w'"
    unfolding w' by (rule unlink_point[OF st]) (rule view_below_file[OF v])
  with v a show ?thesis by auto
qed

lemma os_rmdir_point:
  assumes "os_rmdir w a = Inr w'"
  shows "\<exists>m. os_stat w a = Some (Dir m []) \<and> point_upd w a None (Rmdir a) w'"
proof -
  obtain r p where a: "a = (r, p)" by (cases a)
  from assms obtain m where st: "os_stat w (r, p) = Some (Dir m [])"
    and w': "w' = emit (Rmdir a) (if p = [] then set_tree w r None
                    else upd_dir w (dirname (r, p)) (AList.delete (last p)))"
    by (auto simp: os_rmdir_def a split: option.splits node.splits if_splits)
  have "point_upd w (r, p) None (Rmdir a) w'"
    unfolding w' by (rule unlink_point[OF st]) (rule view_below_empty[OF st])
  with st a show ?thesis by auto
qed

lemma os_rmdir_fails:
  "os_rmdir w a = Inl e \<Longrightarrow> os_listdir w a \<noteq> Inr []"
  by (auto simp: os_rmdir_def os_listdir_def split: option.splits node.splits if_splits)

lemma write_file_point:
  assumes ok: "os_stat w (r, p) = None \<or> (\<exists>m' c'. os_stat w (r, p) = Some (File m' c'))"
    and par: "p \<noteq> [] \<Longrightarrow> \<exists>m' es. os_stat w (r, butlast p) = Some (Dir m' es)"
    and root: "p = [] \<Longrightarrow> True"
  shows "point_upd w (r, p) (Some (Inl (m, c))) e
           (emit e (if p = [] then set_tree w r (Some (File m c))
                    else upd_dir w (dirname (r, p)) (AList.update (last p) (File m c))))"
proof -
  have below: "view w (r, q) = None" if "strict_prefix p q" for q
  proof -
    from ok show ?thesis
    proof
      assume "os_stat w (r, p) = None"
      then have "view w (r, p) = None" by (simp add: view_def)
      from view_below_missing[OF this] that show ?thesis by (simp add: strict_prefix_def)
    next
      assume "\<exists>m' c'. os_stat w (r, p) = Some (File m' c')"
      then obtain m' c' where "view w (r, p) = Some (Inl (m', c'))"
        by (auto simp: view_file_stat)
      from view_below_file[OF this that] show ?thesis .
    qed
  qed
  show ?thesis
  proof (cases "p = []")
    case True
    have "point_upd w (r, []) (Some (Inl (m, c))) e (emit e (set_tree w r (Some (File m c))))"
    proof (rule point_upd_root)
      show "view w (r, q) = None" if "q \<noteq> []" for q
        using below[of q] that True by (simp add: strict_prefix_def)
      show "view (emit e (set_tree w r (Some (File m c)))) (r, q)
          = (if q = [] then Some (Inl (m, c)) else None)" for q
        by (cases q) (simp_all add: view_def os_stat_def)
      show "wf_world (emit e (set_tree w r (Some (File m c))))" if "wf_world w"
        using that by (simp add: wf_world_set_tree wf_tree_def)
    qed simp_all
    then show ?thesis using True by simp
  next
    case False
    from par[OF False] obtain m' es where st: "os_stat w (r, butlast p) = Some (Dir m' es)"
      by blast
    have "point_upd w (r, p) (Some (Inl (m, c))) e
            (emit e (upd_dir w (r, butlast p) (AList.update (last p) (File m c))))"
    proof (rule point_upd_entry[OF st False, where c = "File m c"])
      show "map_of (AList.update (last p) (File m c) es)
          = (map_of es)(last p := map_option (\<lambda>s. File m c) (Some (Inl (m, c))))"
        by (simp add: update_conv')
      show "obs (File m c) q = None" if "q \<noteq> []" for q using that by (cases q) simp_all
      show "view w (r, q) = None" if "strict_prefix p q" for q by (rule below[OF that])
      show "distinct (map fst (AList.update (last p) (File m c) es))
          \<and> wf_entries (AList.update (last p) (File m c) es)"
        if "distinct (map fst es)" "wf_entries es"
        using that set_update_subset[of "last p" "File m c" es]
        by (auto simp: distinct_update wf_entries_iff)
    qed simp
    then show ?thesis using False by (simp add: dirname_def)
  qed
qed

lemma shutil_copy2_point:
  assumes "shutil_copy2 w src dst = Inr w'"
  shows "\<exists>m c. view w src = Some (Inl (m, c)) \<and>
           point_upd w (copy2_target w src dst) (Some (Inl (m, c)))
             (Copied src (copy2_target w src dst)) w'"
proof -
  let ?d = "copy2_target w src dst"
  obtain r p where d: "?d = (r, p)" by (cases ?d)
  from assms obtain m c where src: "os_stat w src = Some (File m c)"
    by (auto simp: shutil_copy2_def Let_def split: if_splits option.splits node.splits)
  from assms src d have
    ok: "os_stat w (r, p) = None \<or> (\<exists>m' c'. os_stat w (r, p) = Some (File m' c'))"
    and par: "p \<noteq> [] \<Longrightarrow> \<exists>m' es. os_stat w (r, butlast p) = Some (Dir m' es)"
    and w': "w' = emit (Copied src ?d) (if p = [] then set_tree w r (Some (File m c))
                    else upd_dir w (dirname (r, p)) (AList.update (last p) (File m c)))"
    unfolding shutil_copy2_def copy2_target_def[symmetric] Let_def
    by (auto simp: dirname_def split: if_splits option.splits node.splits dest: stat_parent_dir)
  have "point_upd w (r, p) (Some (Inl (m, c))) (Copied src ?d) w'"
    unfolding w' by (rule write_file_point[OF ok par]) simp_all
  with src d show ?thesis by (auto simp: view_file_stat)
qed

subsection \<open>The walk\<close>

lemma walk_Dir [simp]: "walk p (Dir m es) = (p, dirs_of es, files_of es) # walk_entries p es"
  by (simp add: dirs_of_def files_of_def)

declare walk.simps(2) [simp del]

lemma set_walk_entries:
  "set (walk_entries p es) = (\<Union>e \<in> set es. set (walk (p @ [fst e]) (snd e)))"
  by (induction es) auto

lemma walk_complete:
  "lookup t q = Some (Dir m es) \<Longrightarrow> (p @ q, dirs_of es, files_of es) \<in> set (walk p t)"
proof (induction q arbitrary: t p)
  case Nil
  then show ?case by (simp add: walk_Dir)
next
  case (Cons n q)
  from Cons.prems obtain m0 es0 c where t: "t = Dir m0 es0" and c: "map_of es0 n = Some c"
    and l: "lookup c q = Some (Dir m es)"
    by (cases t) (auto split: option.splits)
  from Cons.IH[OF l, of "p @ [n]"] have "(p @ n # q, dirs_of es, files_of es) \<in> set (walk (p @ [n]) c)"
    by simp
  moreover from c have "(n, c) \<in> set es0" by (rule map_of_SomeD)
  ultimately have "(p @ n # q, dirs_of es, files_of es) \<in> set (walk_entries p es0)"
    unfolding set_walk_entries by force
  then show ?case by (simp add: t walk_Dir)
qed

lemma walk_sound:
  "wf_node t \<Longrightarrow> x \<in> set (walk p t) \<Longrightarrow>
     \<exists>q m es. x = (p @ q, dirs_of es, files_of es) \<and> lookup t q = Some (Dir m es)"
  and walk_entries_sound:
  "distinct (map fst es0) \<Longrightarrow> wf_entries es0 \<Longrightarrow> x \<in> set (walk_entries p es0) \<Longrightarrow>
     \<exists>n c q m es. map_of es0 n = Some c \<and> x = (p @ n # q, dirs_of es, files_of es) \<and>
        lookup c q = Some (Dir m es)"
proof (induction p t and p es0 rule: walk_walk_entries.induct)
  case (1 p m c)
  then show ?case by simp
next
  case (2 p m es0)
  from 2(3) consider "x = (p, dirs_of es0, files_of es0)" | "x \<in> set (walk_entries p es0)"
    by (auto simp: walk_Dir)
  then show ?case
  proof cases
    case 1
    then show ?thesis by (intro exI[of _ "[]"]) simp
  next
    case b: 2
    from 2(2) have "distinct (map fst es0)" "wf_entries es0" by simp_all
    from 2(1)[OF this b] obtain n c q m' es where
      "map_of es0 n = Some c" "x = (p @ n # q, dirs_of es, files_of es)"
      "lookup c q = Some (Dir m' es)" by blast
    then show ?thesis by (intro exI[of _ "n # q"]) simp
  qed
next
  case (3 p)
  then show ?case by simp
next
  case (4 p n c es0)
  from 4(5) consider "x \<in> set (walk (p @ [n]) c)" | "x \<in> set (walk_entries p es0)"
    by auto
  then show ?case
  proof cases
    case 1
    from 4(4) have "wf_node c" by simp
    from 4(1)[OF this 1] obtain q m es where
      "x = ((p @ [n]) @ q, dirs_of es, files_of es)" "lookup c q = Some (Dir m es)" by blast
    then show ?thesis by (intro exI[of _ n] exI[of _ c] exI[of _ q]) auto
  next
    case b: 2
    from 4(3,4) have d: "distinct (map fst es0)" "wf_entries es0" and nin: "n \<notin> fst ` set es0"
      by simp_all
    from 4(2)[OF d b] obtain n' c' q m es where
      *: "map_of es0 n' = Some c'" "x = (p @ n' # q, dirs_of es, files_of es)"
      "lookup c' q = Some (Dir m es)" by blast
    from *(1) nin have "n' \<noteq> n" by (metis domI dom_map_of_conv_image_fst)
    with * show ?thesis by (intro exI[of _ n'] exI[of _ c'] exI[of _ q]) auto
  qed
qed

lemma basename_snoc [simp]: "basename (p @ [f]) = f"
  by (simp add: basename_def)

lemma in_scan_files:
  "x \<in> set (scan_files w base flt) \<longleftrightarrow>
     (\<exists>root ds fs f. (root, ds, fs) \<in> set (os_walk w base) \<and> f \<in> set fs \<and>
        \<not> (flt \<and> should_skip_file f) \<and> x = ((base, root @ [f]), root @ [f]))"
  unfolding scan_files_def set_concat set_map by fastforce

lemma in_scan_directories:
  "x \<in> set (scan_directories w base) \<longleftrightarrow>
     (\<exists>root ds fs d. (root, ds, fs) \<in> set (os_walk w base) \<and> d \<in> set ds \<and>
        x = ((base, root @ [d]), root @ [d]))"
  unfolding scan_directories_def set_concat set_map by fastforce

lemma scan_files_shape:
  "x \<in> set (scan_files w base flt) \<Longrightarrow>
     fst x = (base, snd x) \<and> snd x \<noteq> [] \<and> \<not> (flt \<and> should_skip_file (basename (snd x)))"
  by (auto simp: in_scan_files)

lemma scan_directories_shape:
  "x \<in> set (scan_directories w base) \<Longrightarrow> fst x = (base, snd x) \<and> snd x \<noteq> []"
  by (auto simp: in_scan_directories)

lemma in_files_of: "f \<in> set (files_of es) \<longleftrightarrow> (\<exists>m c. (f, File m c) \<in> set es)"
proof -
  have "is_File t \<longleftrightarrow> (\<exists>m c. t = File m c)" for t by (cases t) simp_all
  then show ?thesis by (force simp: files_of_def)
qed

lemma in_dirs_of: "d \<in> set (dirs_of es) \<longleftrightarrow> (\<exists>m es'. (d, Dir m es') \<in> set es)"
proof -
  have "is_Dir t \<longleftrightarrow> (\<exists>m es'. t = Dir m es')" for t by (cases t) simp_all
  then show ?thesis by (force simp: dirs_of_def)
qed

lemma os_walk_complete:
  "os_stat w (base, q) = Some (Dir m es) \<Longrightarrow> (q, dirs_of es, files_of es) \<in> set (os_walk w base)"
  using walk_complete[of _ q m es "[]"]
  by (auto simp: os_stat_def os_walk_def split: option.splits)

lemma os_walk_sound:
  "wf_tree (tree_of w base) \<Longrightarrow> x \<in> set (os_walk w base) \<Longrightarrow>
     \<exists>m es. x = (fst x, dirs_of es, files_of es) \<and> os_stat w (base, fst x) = Some (Dir m es) \<and>
        distinct (map fst es)"
proof -
  assume wf: "wf_tree (tree_of w base)" and x: "x \<in> set (os_walk w base)"
  from x obtain t where t: "tree_of w base = Some t" and xt: "x \<in> set (walk [] t)"
    by (cases "tree_of w base") (auto simp: os_walk_def)
  from wf t have wft: "wf_node t" by (simp add: wf_tree_def)
  from walk_sound[OF wft xt] obtain q m es where
    q: "x = (q, dirs_of es, files_of es)" "lookup t q = Some (Dir m es)" by auto
  from wf_lookup[OF wft q(2)] have "distinct (map fst es)" by simp
  with q t show ?thesis by (auto simp: os_stat_def)
qed

lemma stat_child:
  "os_stat w (r, q) = Some (Dir m es) \<Longrightarrow> os_stat w (r, q @ [n]) = map_of es n"
  by (auto simp: os_stat_def lookup_append split: option.splits)

lemma scan_files_complete:
  assumes "os_stat w (base, rel) = Some (File m c)" and "rel \<noteq> []"
    and "\<not> (flt \<and> should_skip_file (basename rel))"
  shows "((base, rel), rel) \<in> set (scan_files w base flt)"
proof -
  from stat_parent_dir[OF assms(1,2)] obtain m' es where
    par: "os_stat w (base, butlast rel) = Some (Dir m' es)" and
    e: "map_of es (last rel) = Some (File m c)" by blast
  from e have "(last rel, File m c) \<in> set es" by (rule map_of_SomeD)
  then have "last rel \<in> set (files_of es)" by (auto simp: in_files_of)
  with os_walk_complete[OF par] assms(2,3) show ?thesis
    unfolding in_scan_files
    by (intro exI[of _ "butlast rel"] exI[of _ "dirs_of es"] exI[of _ "files_of es"]
        exI[of _ "last rel"]) (simp add: basename_def)
qed

lemma scan_directories_complete:
  assumes "os_stat w (base, rel) = Some (Dir m es)" and "rel \<noteq> []"
  shows "((base, rel), rel) \<in> set (scan_directories w base)"
proof -
  from stat_parent_dir[OF assms(1,2)] obtain m' es' where
    par: "os_stat w (base, butlast rel) = Some (Dir m' es')" and
    e: "map_of es' (last rel) = Some (Dir m es)" by blast
  from e have "(last rel, Dir m es) \<in> set es'" by (rule map_of_SomeD)
  then have "last rel \<in> set (dirs_of es')" by (auto simp: in_dirs_of)
  with os_walk_complete[OF par] assms(2) show ?thesis
    unfolding in_scan_directories
    by (intro exI[of _ "butlast rel"] exI[of _ "dirs_of es'"] exI[of _ "files_of es'"]
        exI[of _ "last rel"]) simp
qed

lemma scan_files_sound:
  assumes "wf_tree (tree_of w base)" and "x \<in> set (scan_files w base flt)"
  shows "\<exists>m c. os_stat w (base, snd x) = Some (File m c)"
proof -
  from assms(2) obtain root ds fs f where
    wk: "(root, ds, fs) \<in> set (os_walk w base)" and f: "f \<in> set fs" and x: "snd x = root @ [f]"
    by (auto simp: in_scan_files)
  from os_walk_sound[OF assms(1) wk] obtain m es where
    fs: "fs = files_of es" and st: "os_stat w (base, root) = Some (Dir m es)"
    and d: "distinct (map fst es)" by auto
  from f fs obtain m' c where "(f, File m' c) \<in> set es" by (auto simp: in_files_of)
  with d have "map_of es f = Some (File m' c)" by simp
  with stat_child[OF st, of f] x show ?thesis by simp
qed

lemma scan_directories_sound:
  assumes "wf_tree (tree_of w base)" and "x \<in> set (scan_directories w base)"
  shows "\<exists>m es. os_stat w (base, snd x) = Some (Dir m es)"
proof -
  from assms(2) obtain root ds fs d where
    wk: "(root, ds, fs) \<in> set (os_walk w base)" and f: "d \<in> set ds" and x: "snd x = root @ [d]"
    by (auto simp: in_scan_directories)
  from os_walk_sound[OF assms(1) wk] obtain m es where
    fs: "ds = dirs_of es" and st: "os_stat w (base, root) = Some (Dir m es)"
    and di: "distinct (map fst es)" by auto
  from f fs obtain m' es' where "(d, Dir m' es') \<in> set es" by (auto simp: in_dirs_of)
  with di have "map_of es d = Some (Dir m' es')" by simp
  with stat_child[OF st, of d] x show ?thesis by simp
qed

section \<open>Creating directories\<close>

lemma path_exists_view: "path_exists w a \<longleftrightarrow> view w a \<noteq> None"
  by (simp add: path_exists_def view_def)

lemma os_isdir_view: "os_isdir w a \<longleftrightarrow> (\<exists>m. view w a = Some (Inr m))"
proof (cases "os_stat w a")
  case None
  then show ?thesis by (simp add: os_isdir_def view_def)
next
  case (Some t)
  then show ?thesis by (cases t) (simp_all add: os_isdir_def view_def)
qed

lemma world_of_simps [simp]: "world_of (Inl (e, w)) = w" "world_of (Inr w) = w"
  by (simp_all add: world_of_def)

lemma grown_refl: "grown now d P w w"
  unfolding grown_def by (auto intro: exI[of _ "[]"])

lemma grown_mono: "grown now d P w w' \<Longrightarrow> P \<subseteq> Q \<Longrightarrow> grown now d Q w w'"
  unfolding grown_def by blast

lemma grown_trans:
  assumes "grown now d P w w1" and "grown now d P w1 w2"
  shows "grown now d P w w2"
proof -
  from assms obtain ps qs where "journal w1 = journal w @ map Mkdir ps"
    "journal w2 = journal w1 @ map Mkdir qs" unfolding grown_def by blast
  then have "journal w2 = journal w @ map Mkdir (ps @ qs)" by simp
  then have j: "\<exists>ps. journal w2 = journal w @ map Mkdir ps" ..
  have v: "view w2 b = view w b \<or>
      (fst b = d \<and> snd b \<in> P \<and> view w b = None \<and> view w2 b = Some (Inr now))" for b
    using assms unfolding grown_def by (metis option.distinct(1))
  show ?thesis
    unfolding grown_def using v j assms unfolding grown_def by auto
qed

lemma grown_file:
  "grown now d P w w' \<Longrightarrow> view w' b = Some (Inl mc) \<longleftrightarrow> view w b = Some (Inl mc)"
  unfolding grown_def by (metis Inl_Inr_False option.distinct(1) option.inject)

lemma grown_exists: "grown now d P w w' \<Longrightarrow> path_exists w b \<Longrightarrow> view w' b = view w b"
  unfolding grown_def path_exists_view by metis

lemma mkdir_grown:
  assumes "os_mkdir now w a = Inr w'"
  shows "grown now (fst a) {snd a} w w'" and "os_isdir w' a"
proof -
  from os_mkdir_point[OF assms] have p: "point_upd w a (Some (Inr now)) (Mkdir a) w'"
    and n: "view w a = None" by simp_all
  from p have "journal w' = journal w @ map Mkdir [a]" by (simp add: point_upd_def)
  then have "\<exists>ps. journal w' = journal w @ map Mkdir ps" ..
  with p n show "grown now (fst a) {snd a} w w'"
    unfolding grown_def point_upd_def by (auto simp: prod_eq_iff)
  from p show "os_isdir w' a" by (simp add: point_upd_def os_isdir_view)
qed

lemma os_mkdir_exists:
  assumes "path_exists w a"
  shows "os_mkdir now w a = Inl FileExistsError"
proof (cases "snd a = []")
  case True
  with assms show ?thesis
    by (auto simp: os_mkdir_def path_exists_def os_stat_def split: option.splits)
next
  case False
  obtain r p where a: "a = (r, p)" by (cases a)
  from assms a obtain x where "os_stat w (r, p) = Some x" by (auto simp: path_exists_def)
  from stat_parent_dir[OF this] False a obtain m es where
    "os_stat w (r, butlast p) = Some (Dir m es)" "map_of es (last p) = Some x" by auto
  moreover from this(2) have "last p \<in> fst ` set es"
    by (force dest: map_of_SomeD)
  ultimately show ?thesis using False a by (simp add: os_mkdir_def dirname_def)
qed

lemma parent_exists:
  "path_exists w a \<Longrightarrow> snd a \<noteq> [] \<Longrightarrow> os_isdir w (dirname a)"
proof -
  assume e: "path_exists w a" and p: "snd a \<noteq> []"
  obtain r q where a: "a = (r, q)" by (cases a)
  from e a obtain x where "os_stat w (r, q) = Some x" by (auto simp: path_exists_def)
  from stat_parent_dir[OF this] p a show ?thesis by (auto simp: os_isdir_def dirname_def)
qed

lemma os_isdir_exists: "os_isdir w a \<Longrightarrow> path_exists w a"
  by (auto simp: os_isdir_view path_exists_view)

lemma os_mkdir_fails:
  assumes "os_mkdir now w a = Inl e" and "snd a \<noteq> [] \<Longrightarrow> os_isdir w (dirname a)"
  shows "path_exists w a"
proof (cases "snd a = []")
  case True
  with assms(1) show ?thesis
    by (auto simp: os_mkdir_def path_exists_def os_stat_def split: option.splits)
next
  case False
  obtain r p where a: "a = (r, p)" by (cases a)
  from assms(2)[OF False] a obtain m es where st: "os_stat w (r, butlast p) = Some (Dir m es)"
    by (auto simp: os_isdir_def dirname_def split: option.splits node.splits)
  with assms(1) False a have "last p \<in> fst ` set es"
    by (auto simp: os_mkdir_def dirname_def split: if_splits)
  then obtain x where "map_of es (last p) = Some x"
    by (metis domD dom_map_of_conv_image_fst)
  with stat_child[OF st, of "last p"] False a show ?thesis
    by (simp add: path_exists_def)
qed

lemma os_makedirs_eq:
  "os_makedirs now w a =
     (case before_mkdir now w a of
        Inl ew \<Rightarrow> Inl ew
      | Inr w1 \<Rightarrow>
          (case os_mkdir now w1 a of
             Inr w2 \<Rightarrow> Inr w2
           | Inl e \<Rightarrow> if os_isdir w1 a then Inr w1 else Inl (e, w1)))"
  unfolding before_mkdir_def by (rule os_makedirs.simps)

lemma world_of_before:
  "snd a \<noteq> [] \<Longrightarrow> \<not> path_exists w (dirname a) \<Longrightarrow>
     world_of (before_mkdir now w a) = world_of (os_makedirs now w (dirname a))"
  by (auto simp: before_mkdir_def world_of_def split: sum.splits)

lemma before_noop:
  "\<not> (snd a \<noteq> [] \<and> \<not> path_exists w (dirname a)) \<Longrightarrow> before_mkdir now w a = Inr w"
  unfolding before_mkdir_def by (rule if_not_P)

lemma os_makedirs_grown:
  "grown now (fst a) {q. prefix q (snd a)} w (world_of (os_makedirs now w a)) \<and>
   (\<forall>w'. os_makedirs now w a = Inr w' \<longrightarrow> os_isdir w' a)"
proof (induction now w a rule: os_makedirs.induct)
  case (1 now w a)
  let ?P = "{q. prefix q (snd a)}"
  let ?r1 = "before_mkdir now w a"
  have g1: "grown now (fst a) ?P w (world_of ?r1)"
  proof (cases "snd a \<noteq> [] \<and> \<not> path_exists w (dirname a)")
    case True
    from 1[OF True] have "grown now (fst a) {q. prefix q (butlast (snd a))} w
        (world_of (os_makedirs now w (dirname a)))" by (simp add: dirname_def)
    moreover have "{q. prefix q (butlast (snd a))} \<subseteq> ?P"
      using prefixeq_butlast[of "snd a"] by auto
    ultimately show ?thesis
      using True by (simp add: world_of_before grown_mono)
  next
    case False
    then show ?thesis by (simp add: before_noop grown_refl)
  qed
  show ?case
  proof (cases ?r1)
    case (Inl ew)
    then show ?thesis using g1 by (simp add: os_makedirs_eq world_of_def)
  next
    case (Inr w1)
    with g1 have g: "grown now (fst a) ?P w w1" by simp
    show ?thesis
    proof (cases "os_mkdir now w1 a")
      case (Inl e)
      then show ?thesis using Inr g by (simp add: os_makedirs_eq)
    next
      case r: (Inr w2)
      from mkdir_grown[OF r] have "grown now (fst a) ?P w1 w2" "os_isdir w2 a"
        by (auto intro: grown_mono)
      with g show ?thesis using Inr r by (auto simp: os_makedirs_eq intro: grown_trans)
    qed
  qed
qed

lemma os_makedirs_exists:
  assumes "path_exists w a"
  shows "os_makedirs now w a = (if os_isdir w a then Inr w else Inl (FileExistsError, w))"
proof -
  have "\<not> (snd a \<noteq> [] \<and> \<not> path_exists w (dirname a))"
    using parent_exists[OF assms] os_isdir_exists by blast
  then have "before_mkdir now w a = Inr w" by (rule before_noop)
  then show ?thesis
    by (simp add: os_makedirs_eq os_mkdir_exists[OF assms])
qed

lemma os_makedirs_succeeds:
  "(\<And>q mc. prefix q (snd a) \<Longrightarrow> view w (fst a, q) \<noteq> Some (Inl mc)) \<Longrightarrow>
     \<exists>w'. os_makedirs now w a = Inr w'"
proof (induction now w a rule: os_makedirs.induct)
  case (1 now w a)
  let ?r1 = "before_mkdir now w a"
  have "\<exists>w1. ?r1 = Inr w1 \<and> grown now (fst a) {q. prefix q (butlast (snd a))} w w1 \<and>
      (snd a \<noteq> [] \<longrightarrow> os_isdir w1 (dirname a))"
  proof (cases "snd a \<noteq> [] \<and> \<not> path_exists w (dirname a)")
    case True
    have "\<exists>w'. os_makedirs now w (dirname a) = Inr w'"
    proof (rule 1(1)[OF True])
      fix q mc assume "prefix q (snd (dirname a))"
      then have "prefix q (snd a)"
        using prefixeq_butlast[of "snd a"] by (auto simp: dirname_def)
      from 1(2)[OF this] show "view w (fst (dirname a), q) \<noteq> Some (Inl mc)"
        by (simp add: dirname_def)
    qed
    then obtain w' where w': "os_makedirs now w (dirname a) = Inr w'" ..
    with os_makedirs_grown[of now "dirname a" w] True show ?thesis
      by (simp add: before_mkdir_def dirname_def)
  next
    case False
    have "os_isdir w (dirname a)" if "snd a \<noteq> []"
    proof -
      from that False have "view w (dirname a) \<noteq> None" by (simp add: path_exists_view)
      moreover have "view w (dirname a) \<noteq> Some (Inl mc)" for mc
        using 1(2)[of "butlast (snd a)" mc] prefixeq_butlast[of "snd a"]
        by (simp add: dirname_def)
      ultimately show ?thesis
        unfolding os_isdir_view by (metis not_Some_eq sum.exhaust_sel sum.collapse)
    qed
    then show ?thesis using False by (simp add: before_noop grown_refl)
  qed
  then obtain w1 where r1: "?r1 = Inr w1"
    and g: "grown now (fst a) {q. prefix q (butlast (snd a))} w w1"
    and par: "snd a \<noteq> [] \<Longrightarrow> os_isdir w1 (dirname a)" by blast
  show ?case
  proof (cases "os_mkdir now w1 a")
    case (Inr w2)
    then show ?thesis using r1 by (simp add: os_makedirs_eq)
  next
    case (Inl e)
    from os_mkdir_fails[OF Inl par] have ex: "view w1 a \<noteq> None" by (simp add: path_exists_view)
    have "view w1 a \<noteq> Some (Inl mc)" for mc
      using grown_file[OF g, of a mc] 1(2)[of "snd a" mc] by simp
    with ex have "os_isdir w1 a"
      unfolding os_isdir_view by (metis not_Some_eq sum.exhaust_sel sum.collapse)
    then show ?thesis using r1 Inl by (simp add: os_makedirs_eq)
  qed
qed

lemma create_dirs_grown:
  "grown now d {q. \<exists>x \<in> set ds. prefix q (snd x)} w (world_of (create_dirs now d w ds))"
proof (induction ds arbitrary: w)
  case Nil
  then show ?case by (simp add: grown_refl)
next
  case (Cons x ds)
  let ?P = "{q. \<exists>y \<in> set (x # ds). prefix q (snd y)}"
  have tl: "grown now d ?P w1 (world_of (create_dirs now d w1 ds))" for w1
    by (rule grown_mono[OF Cons.IH]) auto
  show ?case
  proof (cases "path_exists w (d, snd x)")
    case True
    then show ?thesis using tl[of w] by (simp add: os_join_def)
  next
    case False
    have g: "grown now d ?P w (world_of (os_makedirs now w (d, snd x)))"
      using os_makedirs_grown[of now "(d, snd x)" w] by (auto intro: grown_mono)
    show ?thesis
    proof (cases "os_makedirs now w (d, snd x)")
      case (Inl ew)
      then show ?thesis using False g by (simp add: os_join_def)
    next
      case (Inr w1)
      with g tl[of w1] show ?thesis using False by (auto simp: os_join_def intro: grown_trans)
    qed
  qed
qed

lemma create_dirs_done:
  "create_dirs now d w ds = Inr w' \<Longrightarrow> x \<in> set ds \<Longrightarrow> path_exists w' (d, snd x)"
proof (induction ds arbitrary: w)
  case Nil
  then show ?case by simp
next
  case (Cons y ds)
  obtain w1 where w1: "create_dirs now d w1 ds = Inr w'" and y: "path_exists w1 (d, snd y)"
  proof (cases "path_exists w (d, snd y)")
    case True
    with Cons.prems(1) that[of w] show ?thesis by (simp add: os_join_def)
  next
    case False
    with Cons.prems(1) obtain w1 where m: "os_makedirs now w (d, snd y) = Inr w1"
      and c: "create_dirs now d w1 ds = Inr w'"
      by (auto simp: os_join_def split: sum.splits)
    from os_makedirs_grown[of now "(d, snd y)" w] m have "os_isdir w1 (d, snd y)" by simp
    with c that show ?thesis by (auto dest: os_isdir_exists)
  qed
  show ?case
  proof (cases "x = y")
    case True
    from create_dirs_grown[of now d ds w1] w1 have "grown now d {q. \<exists>x \<in> set ds. prefix q (snd x)} w1 w'"
      by simp
    from grown_exists[OF this y] y True show ?thesis by (simp add: path_exists_view)
  next
    case False
    with Cons.prems(2) have "x \<in> set ds" by simp
    from Cons.IH[OF w1 this] show ?thesis .
  qed
qed

lemma create_dirs_succeeds:
  "(\<And>x q mc. x \<in> set ds \<Longrightarrow> prefix q (snd x) \<Longrightarrow> view w (d, q) \<noteq> Some (Inl mc)) \<Longrightarrow>
     \<exists>w'. create_dirs now d w ds = Inr w'"
proof (induction ds arbitrary: w)
  case Nil
  then show ?case by simp
next
  case (Cons y ds)
  show ?case
  proof (cases "path_exists w (d, snd y)")
    case True
    have "\<exists>w'. create_dirs now d w ds = Inr w'"
    proof (rule Cons.IH)
      fix x q mc assume "x \<in> set ds" "prefix q (snd x)"
      then show "view w (d, q) \<noteq> Some (Inl mc)" using Cons.prems[of x q mc] by simp
    qed
    then show ?thesis using True by (simp add: os_join_def)
  next
    case False
    have "\<exists>w1. os_makedirs now w (d, snd y) = Inr w1"
    proof (rule os_makedirs_succeeds)
      fix q mc assume "prefix q (snd (d, snd y))"
      then show "view w (fst (d, snd y), q) \<noteq> Some (Inl mc)" using Cons.prems[of y q mc] by simp
    qed
    then obtain w1 where m: "os_makedirs now w (d, snd y) = Inr w1" ..
    from os_makedirs_grown[of now "(d, snd y)" w] m
    have g: "grown now d {q. prefix q (snd y)} w w1" by simp
    have "\<exists>w'. create_dirs now d w1 ds = Inr w'"
    proof (rule Cons.IH)
      fix x q mc assume "x \<in> set ds" "prefix q (snd x)"
      with Cons.prems[of x q mc] grown_file[OF g, of "(d, q)" mc]
      show "view w1 (d, q) \<noteq> Some (Inl mc)" by simp
    qed
    then show ?thesis using False m by (simp add: os_join_def)
  qed
qed

lemma create_dirs_noop:
  "(\<And>x. x \<in> set ds \<Longrightarrow> path_exists w (d, snd x)) \<Longrightarrow> create_dirs now d w ds = Inr w"
  by (induction ds) (simp_all add: os_join_def)

lemma collect_copy_tasks_Inr:
  "collect_copy_tasks H w d xs = Inr ts \<Longrightarrow>
     ts = filter (\<lambda>s. should_copy H w (fst s) (os_join d (snd s)) = Inr True) xs \<and>
     (\<forall>s \<in> set xs. \<exists>b. should_copy H w (fst s) (os_join d (snd s)) = Inr b)"
proof (induction xs arbitrary: ts)
  case Nil
  then show ?case by simp
next
  case (Cons x xs)
  from Cons.prems obtain b ts' where b: "should_copy H w (fst x) (os_join d (snd x)) = Inr b"
    and t: "collect_copy_tasks H w d xs = Inr ts'" and ts: "ts = (if b then x # ts' else ts')"
    by (auto split: sum.splits)
  from Cons.IH[OF t] b ts show ?case by auto
qed

lemma collect_copy_tasks_total:
  "(\<And>s. s \<in> set xs \<Longrightarrow> \<exists>b. should_copy H w (fst s) (os_join d (snd s)) = Inr b) \<Longrightarrow>
     \<exists>ts. collect_copy_tasks H w d xs = Inr ts"
proof (induction xs)
  case Nil
  then show ?case by simp
next
  case (Cons x xs)
  from Cons.prems[of x] obtain b where "should_copy H w (fst x) (os_join d (snd x)) = Inr b"
    by auto
  moreover from Cons.IH Cons.prems obtain ts where "collect_copy_tasks H w d xs = Inr ts"
    by auto
  ultimately show ?case by simp
qed

lemma sync_folders_Inr:
  assumes "sync_folders H cpu now w s d = Inr r"
  shows "\<exists>w1 w2. path_exists w (s, []) \<and> os_makedirs now w (d, []) = Inr w1 \<and>
           sync_directories now w1 s d = Inr w2 \<and>
           src_files r = scan_files w2 s True \<and>
           collect_copy_tasks H w2 d (src_files r) = Inr (copy_tasks r) \<and>
           dst_files r = scan_files w2 d False \<and>
           delete_tasks r = collect_delete_tasks (set (map snd (src_files r))) (dst_files r) \<and>
           (copy_tasks r \<noteq> [] \<longrightarrow> num_processes cpu (length (copy_tasks r)) \<noteq> 0) \<and>
           after r = remove_obsolete_directories
                  (delete_phase (copy_phase cpu now d w2 (copy_tasks r)) (delete_tasks r)) s d"
  using assms unfolding sync_folders_def Let_def copy_phase_def delete_phase_def
  by (auto split: if_splits sum.splits)

section \<open>A run of \<^verbatim>\<open>sync_folders\<close>\<close>

lemma grown_stat_file:
  "grown now d P w w' \<Longrightarrow> os_stat w' b = Some (File m c) \<longleftrightarrow> os_stat w b = Some (File m c)"
  using grown_file[of now d P w w' b "(m, c)"] by (simp add: view_file_stat)

lemma grown_isdir: "grown now d P w w' \<Longrightarrow> os_isdir w b \<Longrightarrow> os_isdir w' b"
  using grown_exists[of now d P w w' b] by (auto simp: os_isdir_view path_exists_view)

lemma setup_grown:
  assumes "os_makedirs now w (d, []) = Inr w1" and "sync_directories now w1 s d = Inr w2"
  shows "grown now d UNIV w w2" and "os_isdir w2 (d, [])"
proof -
  from os_makedirs_grown[of now "(d, [])" w] assms(1)
  have g1: "grown now d UNIV w w1" and i1: "os_isdir w1 (d, [])"
    by (auto intro: grown_mono)
  from create_dirs_grown[of now d "scan_directories w1 s" w1] assms(2)
  have g2: "grown now d UNIV w1 w2"
    by (auto simp: sync_directories_def intro: grown_mono)
  from g1 g2 show "grown now d UNIV w w2" by (rule grown_trans)
  from g2 i1 show "os_isdir w2 (d, [])" by (rule grown_isdir)
qed

lemma in_collect_delete_tasks:
  assumes "\<And>x. x \<in> set ds \<Longrightarrow> fst x = (d, snd x)"
  shows "(d, rel) \<in> set (collect_delete_tasks S ds) \<longleftrightarrow>
           ((d, rel), rel) \<in> set ds \<and> (should_skip_file (basename rel) \<or> rel \<notin> S)"
proof
  assume "(d, rel) \<in> set (collect_delete_tasks S ds)"
  then obtain x where x: "x \<in> set ds" "fst x = (d, rel)"
    "should_skip_file (basename (snd x)) \<or> snd x \<notin> S"
    by (auto simp: collect_delete_tasks_def)
  from assms[OF x(1)] x(2) have sx: "snd x = rel" by simp
  with x(2) have "x = ((d, rel), rel)" by (simp add: prod_eq_iff)
  with x sx show "((d, rel), rel) \<in> set ds \<and> (should_skip_file (basename rel) \<or> rel \<notin> S)"
    by simp
next
  assume "((d, rel), rel) \<in> set ds \<and> (should_skip_file (basename rel) \<or> rel \<notin> S)"
  then show "(d, rel) \<in> set (collect_delete_tasks S ds)"
    by (force simp: collect_delete_tasks_def)
qed

lemma delete_set_facts:
  assumes "sync_folders H cpu now w s d = Inr r"
  shows "\<exists>w2. grown now d UNIV w w2 \<and>
           src_files r = scan_files w2 s True \<and> dst_files r = scan_files w2 d False \<and>
           (\<forall>x \<in> set (dst_files r).
              fst x \<in> set (delete_tasks r) \<longleftrightarrow>
                should_skip_file (basename (snd x)) \<or> snd x \<notin> snd ` set (src_files r)) \<and>
           (\<forall>rel m c. os_stat w (d, rel) = Some (File m c) \<longrightarrow>
              ((d, rel), rel) \<in> set (dst_files r))"
proof -
  from sync_folders_Inr[OF assms] obtain w1 w2 where
    mk: "os_makedirs now w (d, []) = Inr w1" and sd: "sync_directories now w1 s d = Inr w2"
    and src: "src_files r = scan_files w2 s True" and dst: "dst_files r = scan_files w2 d False"
    and del: "delete_tasks r = collect_delete_tasks (set (map snd (src_files r))) (dst_files r)"
    by blast
  from setup_grown[OF mk sd] have g: "grown now d UNIV w w2" and root: "os_isdir w2 (d, [])"
    by simp_all
  have sh: "fst x = (d, snd x)" if "x \<in> set (dst_files r)" for x
    using scan_files_shape[of x w2 d False] that dst by simp
  have mem: "fst x \<in> set (delete_tasks r) \<longleftrightarrow>
      should_skip_file (basename (snd x)) \<or> snd x \<notin> snd ` set (src_files r)"
    if "x \<in> set (dst_files r)" for x
  proof -
    from sh[OF that] have x: "x = ((d, snd x), snd x)" by (cases x) simp
    with that have "((d, snd x), snd x) \<in> set (dst_files r)" by simp
    with in_collect_delete_tasks[of "dst_files r" d "snd x" "set (map snd (src_files r))"] sh
    show ?thesis using sh[OF that] by (simp add: del)
  qed
  have all: "((d, rel), rel) \<in> set (dst_files r)" if "os_stat w (d, rel) = Some (File m c)"
    for rel m c
  proof -
    from that g have st: "os_stat w2 (d, rel) = Some (File m c)" by (simp add: grown_stat_file)
    with root have "rel \<noteq> []" by (auto simp: os_isdir_def)
    from scan_files_complete[OF st this, of False] show ?thesis by (simp add: dst)
  qed
  from g src dst mem all show ?thesis by blast
qed


lemma demo_run_eq: "sync_folders id 4 10 demo_world Source Destination = Inr demo_run"
  by code_simp

lemma demo_second: "sync_folders id 4 11 demo_after Source Destination =
   Inr \<lparr>src_files = src_files demo_run, copy_tasks = [],
         dst_files = [((Destination, [''a.txt'']), [''a.txt'']),
                   ((Destination, [''sub'', ''b.txt'']), [''sub'', ''b.txt''])],
         delete_tasks = [], after = demo_after\<rparr>"
  by code_simp

lemma demo_junk_stat: "os_stat demo_world (Destination, [''._a.txt'']) = Some (File 1 ''j'')"
  by (simp add: os_stat_def demo_world_def)


text \<open>
  Claim C3. In a run of \<^verbatim>\<open>sync_folders\<close> that returns, the source is scanned with the skip
  filter and the destination without it, both in the world the directory creation leaves; an
  entry of the destination scan is placed in the delete set if and only if its file name
  matches the skip predicate or its relative path is not one of the source scan; and every
  file the destination held when the run began is in the destination scan, whatever its name.
\<close>

theorem delete_set_membership:
  assumes "sync_folders H cpu now w s d = Inr r"
  shows "\<exists>w2. grown now d UNIV w w2 \<and>
           src_files r = scan_files w2 s True \<and> dst_files r = scan_files w2 d False \<and>
           (\<forall>x \<in> set (dst_files r).
              fst x \<in> set (delete_tasks r) \<longleftrightarrow>
                should_skip_file (basename (snd x)) \<or> snd x \<notin> snd ` set (src_files r)) \<and>
           (\<forall>rel m c. os_stat w (d, rel) = Some (File m c) \<longrightarrow>
              ((d, rel), rel) \<in> set (dst_files r))"
  using assms by (rule delete_set_facts)

theorem delete_set_membership_witness:
  "sync_folders id 4 10 demo_world Source Destination = Inr demo_run \<and>
   ((Destination, [''._a.txt'']), [''._a.txt'']) \<in> set (dst_files demo_run) \<and>
   (Destination, [''._a.txt'']) \<in> set (delete_tasks demo_run) \<and>
   (Destination, [''old.txt'']) \<in> set (delete_tasks demo_run) \<and>
   (Destination, [''a.txt'']) \<notin> set (delete_tasks demo_run)"
proof -
  from delete_set_membership[OF demo_run_eq] obtain w2 where
    mem: "\<forall>x \<in> set (dst_files demo_run).
              fst x \<in> set (delete_tasks demo_run) \<longleftrightarrow>
                should_skip_file (basename (snd x)) \<or> snd x \<notin> snd ` set (src_files demo_run)"
    and all: "\<forall>rel m c. os_stat demo_world (Destination, rel) = Some (File m c) \<longrightarrow>
              ((Destination, rel), rel) \<in> set (dst_files demo_run)"
    by blast
  from all demo_junk_stat
  have a: "((Destination, [''._a.txt'']), [''._a.txt'']) \<in> set (dst_files demo_run)" by blast
  have "should_skip_file (basename [''._a.txt''])"
    by (simp add: should_skip_file_def basename_def)
  with mem a have b: "(Destination, [''._a.txt'']) \<in> set (delete_tasks demo_run)" by force
  have c: "(Destination, [''old.txt'']) \<in> set (delete_tasks demo_run)"
    "(Destination, [''a.txt'']) \<notin> set (delete_tasks demo_run)"
    by (simp_all add: demo_run_def)
  from demo_run_eq a b c show ?thesis by simp
qed


text \<open>
  Claim C4. In a run of \<^verbatim>\<open>sync_folders\<close> that returns, no relative path of a copy task is
  the relative path of a delete task.
\<close>

theorem copy_delete_disjoint:
  assumes "sync_folders H cpu now w s d = Inr r"
  shows "\<forall>t \<in> set (copy_tasks r). snd t \<notin> snd ` set (delete_tasks r)"
proof
  fix t assume t: "t \<in> set (copy_tasks r)"
  from sync_folders_Inr[OF assms] obtain w2 where
    src: "src_files r = scan_files w2 s True" and dst: "dst_files r = scan_files w2 d False"
    and cp: "collect_copy_tasks H w2 d (src_files r) = Inr (copy_tasks r)"
    and del: "delete_tasks r = collect_delete_tasks (set (map snd (src_files r))) (dst_files r)"
    by blast
  from collect_copy_tasks_Inr[OF cp] t have ts: "t \<in> set (src_files r)" by auto
  with scan_files_shape[of t w2 s True] src have ns: "\<not> should_skip_file (basename (snd t))"
    by simp
  show "snd t \<notin> snd ` set (delete_tasks r)"
  proof
    assume "snd t \<in> snd ` set (delete_tasks r)"
    then obtain x where x: "x \<in> set (dst_files r)" "snd (fst x) = snd t"
      "should_skip_file (basename (snd x)) \<or> snd x \<notin> set (map snd (src_files r))"
      by (auto simp: del collect_delete_tasks_def)
    from scan_files_shape[of x w2 d False] x(1) dst have "fst x = (d, snd x)" by simp
    with x(2) have "snd x = snd t" by simp
    with x(3) ns ts show False by auto
  qed
qed


theorem copy_delete_disjoint_witness:
  "sync_folders id 4 10 demo_world Source Destination = Inr demo_run \<and>
   copy_tasks demo_run \<noteq> [] \<and> delete_tasks demo_run \<noteq> [] \<and>
   snd ` set (copy_tasks demo_run) \<inter> snd ` set (delete_tasks demo_run) = {}"
proof -
  from copy_delete_disjoint[OF demo_run_eq]
  have "snd ` set (copy_tasks demo_run) \<inter> snd ` set (delete_tasks demo_run) = {}" by blast
  moreover have "copy_tasks demo_run \<noteq> []" "delete_tasks demo_run \<noteq> []"
    by (simp_all add: demo_run_def)
  ultimately show ?thesis using demo_run_eq by simp
qed


text \<open>
  Claim C6. \<^verbatim>\<open>should_skip_file\<close> is true of exactly the names that start with \<^verbatim>\<open>'._'\<close> or
  are one of the six names of the skip set; it is a function of the name alone. In a run of
  \<^verbatim>\<open>sync_folders\<close> that returns, no copy task is a file named \<^verbatim>\<open>.DS_Store\<close>,
  \<^verbatim>\<open>Thumbs.db\<close>, \<^verbatim>\<open>Desktop.ini\<close> or \<^verbatim>\<open>.localized\<close> or with a name starting with
  \<^verbatim>\<open>'._'\<close>, and every such file the destination held when the run began is in the delete
  set.
\<close>

theorem junk_never_copied_always_deleted:
  "(should_skip_file f \<longleftrightarrow>
      prefix ''._'' f \<or>
      f \<in> {''.DS_Store'', ''._.DS_Store'', ''Thumbs.db'', ''Desktop.ini'', ''.localized'', ''__MACOSX''}) \<and>
   (sync_folders H cpu now w s d = Inr r \<longrightarrow>
      (\<forall>t \<in> set (copy_tasks r).
         \<not> prefix ''._'' (basename (snd t)) \<and>
         basename (snd t) \<notin> {''.DS_Store'', ''Thumbs.db'', ''Desktop.ini'', ''.localized''}) \<and>
      (\<forall>rel m c. os_stat w (d, rel) = Some (File m c) \<and>
         (prefix ''._'' (basename rel) \<or>
          basename rel \<in> {''.DS_Store'', ''Thumbs.db'', ''Desktop.ini'', ''.localized''})
         \<longrightarrow> (d, rel) \<in> set (delete_tasks r)))"
proof -
  have skip: "should_skip_file g \<longleftrightarrow>
      prefix ''._'' g \<or>
      g \<in> {''.DS_Store'', ''._.DS_Store'', ''Thumbs.db'', ''Desktop.ini'', ''.localized'', ''__MACOSX''}"
    for g
    unfolding should_skip_file_def skip_files_def
    by (cases "prefix ''._'' g") (simp_all only: if_True if_False simp_thms)
  have junk: "should_skip_file g"
    if "prefix ''._'' g \<or> g \<in> {''.DS_Store'', ''Thumbs.db'', ''Desktop.ini'', ''.localized''}" for g
  proof -
    from that have "prefix ''._'' g \<or> g = ''.DS_Store'' \<or> g = ''Thumbs.db'' \<or> g = ''Desktop.ini''
        \<or> g = ''.localized''"
      by (simp only: insert_iff empty_iff simp_thms)
    then show ?thesis
      by (elim disjE) (simp_all only: skip insert_iff simp_thms)
  qed
  have run: "(\<forall>t \<in> set (copy_tasks r). \<not> should_skip_file (basename (snd t))) \<and>
      (\<forall>rel m c. os_stat w (d, rel) = Some (File m c) \<and> should_skip_file (basename rel)
         \<longrightarrow> (d, rel) \<in> set (delete_tasks r))"
    if ok: "sync_folders H cpu now w s d = Inr r"
  proof -
    from sync_folders_Inr[OF ok] obtain w2 where
      src: "src_files r = scan_files w2 s True"
      and cp: "collect_copy_tasks H w2 d (src_files r) = Inr (copy_tasks r)"
      by blast
    have "\<not> should_skip_file (basename (snd t))" if "t \<in> set (copy_tasks r)" for t
    proof -
      from collect_copy_tasks_Inr[OF cp] that have "t \<in> set (src_files r)" by auto
      with scan_files_shape[of t w2 s True] src show ?thesis by simp
    qed
    moreover have "(d, rel) \<in> set (delete_tasks r)"
      if "os_stat w (d, rel) = Some (File m c)" "should_skip_file (basename rel)" for rel m c
    proof -
      from delete_set_facts[OF ok] that(1) have
        "((d, rel), rel) \<in> set (dst_files r)"
        "\<forall>x \<in> set (dst_files r). fst x \<in> set (delete_tasks r) \<longleftrightarrow>
           should_skip_file (basename (snd x)) \<or> snd x \<notin> snd ` set (src_files r)"
        by blast+
      with that(2) show ?thesis by force
    qed
    ultimately show ?thesis by blast
  qed
  have "(\<forall>t \<in> set (copy_tasks r).
         \<not> prefix ''._'' (basename (snd t)) \<and>
         basename (snd t) \<notin> {''.DS_Store'', ''Thumbs.db'', ''Desktop.ini'', ''.localized''}) \<and>
      (\<forall>rel m c. os_stat w (d, rel) = Some (File m c) \<and>
         (prefix ''._'' (basename rel) \<or>
          basename rel \<in> {''.DS_Store'', ''Thumbs.db'', ''Desktop.ini'', ''.localized''})
         \<longrightarrow> (d, rel) \<in> set (delete_tasks r))"
    if ok: "sync_folders H cpu now w s d = Inr r"
  proof (intro conjI ballI allI impI)
    fix t assume "t \<in> set (copy_tasks r)"
    with run[OF ok] have ns: "\<not> should_skip_file (basename (snd t))" by blast
    have "\<not> (prefix ''._'' (basename (snd t)) \<or>
        basename (snd t) \<in> {''.DS_Store'', ''Thumbs.db'', ''Desktop.ini'', ''.localized''})"
      by (rule contrapos_nn[OF ns]) (rule junk)
    then have both: "\<not> prefix ''._'' (basename (snd t)) \<and>
        basename (snd t) \<notin> {''.DS_Store'', ''Thumbs.db'', ''Desktop.ini'', ''.localized''}"
      by (rule iffD1[OF de_Morgan_disj])
    from both show "\<not> prefix ''._'' (basename (snd t))" by (rule conjunct1)
    from both show "basename (snd t) \<notin> {''.DS_Store'', ''Thumbs.db'', ''Desktop.ini'', ''.localized''}"
      by (rule conjunct2)
  next
    fix rel m c
    assume "os_stat w (d, rel) = Some (File m c) \<and>
         (prefix ''._'' (basename rel) \<or>
          basename rel \<in> {''.DS_Store'', ''Thumbs.db'', ''Desktop.ini'', ''.localized''})"
    then have "os_stat w (d, rel) = Some (File m c)" "should_skip_file (basename rel)"
      using junk[of "basename rel"] by (simp_all only: simp_thms)
    with run[OF ok] show "(d, rel) \<in> set (delete_tasks r)" by blast
  qed
  then have "sync_folders H cpu now w s d = Inr r \<longrightarrow>
      (\<forall>t \<in> set (copy_tasks r).
         \<not> prefix ''._'' (basename (snd t)) \<and>
         basename (snd t) \<notin> {''.DS_Store'', ''Thumbs.db'', ''Desktop.ini'', ''.localized''}) \<and>
      (\<forall>rel m c. os_stat w (d, rel) = Some (File m c) \<and>
         (prefix ''._'' (basename rel) \<or>
          basename rel \<in> {''.DS_Store'', ''Thumbs.db'', ''Desktop.ini'', ''.localized''})
         \<longrightarrow> (d, rel) \<in> set (delete_tasks r))"
    by (rule impI)
  with skip[of f] show ?thesis by (rule conjI)
qed

theorem junk_never_copied_always_deleted_witness:
  "should_skip_file ''._a.txt'' \<and>
   sync_folders id 4 10 demo_world Source Destination = Inr demo_run \<and>
   os_stat demo_world (Destination, [''._a.txt'']) = Some (File 1 ''j'') \<and>
   (Destination, [''._a.txt'']) \<in> set (delete_tasks demo_run) \<and>
   ''.DS_Store'' \<notin> (\<lambda>t. basename (snd t)) ` set (copy_tasks demo_run)"
proof -
  note inst = junk_never_copied_always_deleted[where f = "''._a.txt''" and H = id and cpu = 4
      and now = 10 and w = demo_world and s = Source and d = Destination and r = demo_run]
  have p: "prefix ''._'' ''._a.txt''" by simp
  have skip: "should_skip_file ''._a.txt''"
    by (rule iffD2[OF inst[THEN conjunct1] disjI1[OF p]])
  note both = mp[OF inst[THEN conjunct2] demo_run_eq]
  note cp = both[THEN conjunct1] and del = both[THEN conjunct2]
  have "prefix ''._'' (basename [''._a.txt''])" by (simp add: basename_def)
  with del demo_junk_stat have d: "(Destination, [''._a.txt'']) \<in> set (delete_tasks demo_run)"
    by blast
  have "basename (snd t) \<noteq> ''.DS_Store''" if "t \<in> set (copy_tasks demo_run)" for t
  proof -
    from bspec[OF cp that]
    have "basename (snd t) \<notin> {''.DS_Store'', ''Thumbs.db'', ''Desktop.ini'', ''.localized''}"
      by (rule conjunct2)
    then show ?thesis
    proof (rule contrapos_nn)
      assume "basename (snd t) = ''.DS_Store''"
      then show "basename (snd t) \<in> {''.DS_Store'', ''Thumbs.db'', ''Desktop.ini'', ''.localized''}"
        by (simp only: insert_iff simp_thms)
    qed
  qed
  note neq = this
  have nin: "''.DS_Store'' \<notin> (\<lambda>t. basename (snd t)) ` set (copy_tasks demo_run)"
  proof (rule notI)
    assume "''.DS_Store'' \<in> (\<lambda>t. basename (snd t)) ` set (copy_tasks demo_run)"
    then obtain t where t: "''.DS_Store'' = basename (snd t)" "t \<in> set (copy_tasks demo_run)"
      by (rule imageE)
    from neq[OF t(2)] t(1)[symmetric] show False by (rule notE)
  qed
  show ?thesis
    by (intro conjI) (rule skip demo_run_eq demo_junk_stat d nin)+
qed

section \<open>The steps of the three loops\<close>

text \<open>Steps that only write to the journal, and steps that change one path.\<close>

lemma point_upd_view: "point_upd w a x e w' \<Longrightarrow> view w' b = (if b = a then x else view w b)"
  by (simp add: point_upd_def)

lemma point_upd_journal: "point_upd w a x e w' \<Longrightarrow> journal w' = journal w @ [e]"
  by (simp add: point_upd_def)

lemma point_upd_wf: "point_upd w a x e w' \<Longrightarrow> wf_world w \<Longrightarrow> wf_world w'"
  by (simp add: point_upd_def)

lemma point_upd_tree: "point_upd w a x e w' \<Longrightarrow> r \<noteq> fst a \<Longrightarrow> tree_of w' r = tree_of w r"
  by (simp add: point_upd_def)

lemma copy_file_cases:
  assumes "path_exists w (dirname dst)" and "snd dst \<noteq> []"
  shows "(\<exists>e. copy_file now w src dst = Inl (e, w)) \<or>
         (\<exists>w' m c. copy_file now w src dst = Inr w' \<and> view w src = Some (Inl (m, c)) \<and>
            point_upd w (copy2_target w src dst) (Some (Inl (m, c)))
              (Copied src (copy2_target w src dst)) w')"
proof -
  from os_makedirs_exists[OF assms(1), of now]
  consider "os_makedirs now w (dirname dst) = Inr w"
    | "os_makedirs now w (dirname dst) = Inl (FileExistsError, w)"
    by (auto split: if_splits)
  then show ?thesis
  proof cases
    case 1
    show ?thesis
    proof (cases "shutil_copy2 w src dst")
      case (Inl e)
      then show ?thesis using 1 assms(2) by (simp add: copy_file_def)
    next
      case (Inr w')
      from shutil_copy2_point[OF Inr] Inr 1 assms(2) show ?thesis
        by (auto simp: copy_file_def)
    qed
  next
    case 2
    then show ?thesis using assms(2) by (simp add: copy_file_def)
  qed
qed

lemma thread_copy_cases:
  assumes "path_exists w (dirname (d, snd t))" and "snd t \<noteq> []"
  shows "(\<exists>e. thread_copy now d w t = emit (Failed (fst t) e) w) \<or>
         (\<exists>m c. view w (fst t) = Some (Inl (m, c)) \<and>
            point_upd w (copy2_target w (fst t) (d, snd t)) (Some (Inl (m, c)))
              (Copied (fst t) (copy2_target w (fst t) (d, snd t))) (thread_copy now d w t))"
  using copy_file_cases[of w "(d, snd t)" now "fst t"] assms
  by (auto simp: thread_copy_def os_join_def)

lemma delete_file_safe_cases:
  "(\<not> path_exists w a \<and> delete_file_safe w a = w) \<or>
   (\<exists>e. delete_file_safe w a = emit (Failed a e) w \<and> os_isdir w a) \<or>
   (\<exists>m c. view w a = Some (Inl (m, c)) \<and> point_upd w a None (Removed a) (delete_file_safe w a))"
proof (cases "path_exists w a")
  case False
  then show ?thesis by (simp add: delete_file_safe_def delete_file_def)
next
  case True
  show ?thesis
  proof (cases "os_remove w a")
    case (Inl e)
    then have "os_isdir w a"
      by (auto simp: os_remove_def os_isdir_def split: option.splits node.splits)
        (use True in \<open>simp add: path_exists_def\<close>)
    with Inl True show ?thesis by (auto simp: delete_file_safe_def delete_file_def)
  next
    case (Inr w')
    from os_remove_point[OF Inr] Inr True show ?thesis
      by (auto simp: delete_file_safe_def delete_file_def)
  qed
qed

lemma os_listdir_empty: "os_listdir w a = Inr [] \<longleftrightarrow> empty_dir w a"
proof (cases "os_stat w a")
  case None
  then show ?thesis by (simp add: os_listdir_def empty_dir_def)
next
  case (Some t)
  then show ?thesis by (cases t) (auto simp: os_listdir_def empty_dir_def)
qed

lemma empty_dir_view:
  "empty_dir w a \<longleftrightarrow> (\<exists>m. view w a = Some (Inr m)) \<and> (\<forall>n. view w (fst a, snd a @ [n]) = None)"
proof -
  obtain r q where a: "a = (r, q)" by (cases a)
  show ?thesis
  proof (cases "\<exists>m es. os_stat w (r, q) = Some (Dir m es)")
    case False
    then show ?thesis unfolding a by (auto simp: empty_dir_def view_dir_stat)
  next
    case True
    then obtain m es where st: "os_stat w (r, q) = Some (Dir m es)" by blast
    have "(\<forall>n. map_of es n = None) \<longleftrightarrow> es = []"
      by (cases es) (auto simp: fun_eq_iff)
    with view_child[OF st] st show ?thesis
      unfolding a by (auto simp: empty_dir_def view_dir_stat)
  qed
qed

lemma remove_if_obsolete_cases:
  "(remove_if_obsolete S w x = w \<and> snd x \<in> S) \<or>
   (\<exists>e. remove_if_obsolete S w x = emit (Failed (fst x) e) w \<and> snd x \<notin> S) \<or>
   (remove_if_obsolete S w x = emit (Warning (snd x)) w \<and> snd x \<notin> S \<and>
      os_isdir w (fst x) \<and> \<not> empty_dir w (fst x)) \<or>
   (snd x \<notin> S \<and> empty_dir w (fst x) \<and>
      point_upd w (fst x) None (Rmdir (fst x)) (remove_if_obsolete S w x))"
proof (cases "snd x \<in> S")
  case True
  then show ?thesis by (simp add: remove_if_obsolete_def)
next
  case False
  show ?thesis
  proof (cases "os_listdir w (fst x)")
    case (Inl e)
    then show ?thesis using False by (auto simp: remove_if_obsolete_def)
  next
    case (Inr names)
    then have dir: "os_isdir w (fst x)"
      by (auto simp: os_listdir_def os_isdir_def split: option.splits node.splits)
    show ?thesis
    proof (cases "names = []")
      case ne: False
      with Inr have "\<not> empty_dir w (fst x)" by (simp flip: os_listdir_empty)
      with Inr ne False dir show ?thesis by (simp add: remove_if_obsolete_def)
    next
      case True
      with Inr have e: "empty_dir w (fst x)" by (simp flip: os_listdir_empty)
      show ?thesis
      proof (cases "os_rmdir w (fst x)")
        case (Inl er)
        from os_rmdir_fails[OF this] Inr True show ?thesis by simp
      next
        case r: (Inr w')
        from os_rmdir_point[OF r] Inr True False e r show ?thesis
          by (auto simp: remove_if_obsolete_def)
      qed
    qed
  qed
qed

lemma emit_view [simp]: "os_isdir (emit e w) a = os_isdir w a"
  by (simp add: os_isdir_def)

lemma rod_step_view_other:
  "b \<noteq> fst x \<Longrightarrow> view (remove_if_obsolete S w x) b = view w b"
  using remove_if_obsolete_cases[of S w x] by (auto simp: point_upd_view)

lemma rod_step_view_kept:
  "snd x \<in> S \<Longrightarrow> view (remove_if_obsolete S w x) b = view w b"
  by (simp add: remove_if_obsolete_def)

lemma rod_fold_kept:
  "(\<And>x. x \<in> set xs \<Longrightarrow> fst x = (d, snd x)) \<Longrightarrow> rel \<in> S \<Longrightarrow>
     view (foldl (remove_if_obsolete S) w xs) (d, rel) = view w (d, rel)"
proof (induction xs arbitrary: w)
  case Nil
  then show ?case by simp
next
  case (Cons x xs)
  have "view (remove_if_obsolete S w x) (d, rel) = view w (d, rel)"
  proof (cases "snd x \<in> S")
    case True
    then show ?thesis by (rule rod_step_view_kept)
  next
    case False
    with Cons.prems(2) have "snd x \<noteq> rel" by auto
    with Cons.prems(1)[of x] have "(d, rel) \<noteq> fst x" by auto
    then show ?thesis by (rule rod_step_view_other)
  qed
  with Cons.IH[of "remove_if_obsolete S w x"] Cons.prems show ?case by simp
qed

lemma sort_deepest_first_set [simp]: "set (sort_deepest_first xs) = set xs"
  by (simp add: sort_deepest_first_def)

lemma sort_deepest_first_length [simp]: "length (sort_deepest_first xs) = length xs"
  by (simp add: sort_deepest_first_def)

lemma sort_deepest_first_order:
  assumes "i < j" and "j < length (sort_deepest_first xs)"
  shows "count_sep (snd (sort_deepest_first xs ! j)) \<le> count_sep (snd (sort_deepest_first xs ! i))"
proof -
  let ?f = "\<lambda>x. - int (count_sep (snd x))"
  let ?ys = "sort_deepest_first xs"
  have "sorted (map ?f ?ys)" unfolding sort_deepest_first_def by (rule sorted_sort_key)
  from sorted_nth_mono[OF this, of i j] assms have "?f (?ys ! i) \<le> ?f (?ys ! j)" by simp
  then show ?thesis by simp
qed

lemma evolves_refl: "evolves P d w w"
  unfolding evolves_def by (auto intro: exI[of _ "[]"])

lemma evolves_trans:
  assumes "evolves P d w w1" and "evolves P d w1 w2"
  shows "evolves P d w w2"
proof -
  from assms obtain es fs where "journal w1 = journal w @ es" "\<forall>e \<in> set es. P e"
    "journal w2 = journal w1 @ fs" "\<forall>e \<in> set fs. P e" unfolding evolves_def by blast
  then have "journal w2 = journal w @ (es @ fs) \<and> (\<forall>e \<in> set (es @ fs). P e)" by auto
  then have "\<exists>gs. journal w2 = journal w @ gs \<and> (\<forall>e \<in> set gs. P e)" ..
  with assms show ?thesis unfolding evolves_def by auto
qed

lemma evolves_emit: "P e \<Longrightarrow> evolves P d w (emit e w)"
  unfolding evolves_def by (auto intro: exI[of _ "[e]"])

lemma evolves_point: "point_upd w a x e w' \<Longrightarrow> P e \<Longrightarrow> fst a = d \<Longrightarrow> evolves P d w w'"
  unfolding evolves_def point_upd_def by (auto intro: exI[of _ "[e]"])

lemma evolves_grown: "grown now d Q w w' \<Longrightarrow> evolves is_mkdir d w w'"
  unfolding evolves_def grown_def by (auto simp: is_mkdir_def)

lemma foldl_concat_worker: "foldl (\<lambda>w c. foldl f w c) w xss = foldl f w (concat xss)"
  by (induction xss arbitrary: w) simp_all

lemma concat_chunks: "concat (chunks cpu tasks) = tasks"
proof -
  have "0 < chunk_size cpu (length tasks)" by (simp add: chunk_size_def)
  from range_step_concat[OF this, of tasks 0] show ?thesis by (simp add: chunks_def)
qed

lemma copy_phase_fold: "copy_phase cpu now d w tasks = foldl (thread_copy now d) w tasks"
proof -
  have "copy_worker now d = (\<lambda>w c. foldl (thread_copy now d) w c)"
    by (simp add: copy_worker_def fun_eq_iff)
  then show ?thesis
    by (simp add: copy_phase_def foldl_concat_worker concat_chunks)
qed

lemma delete_phase_fold: "delete_phase w dels = foldl delete_file_safe w dels"
  by (simp add: delete_phase_def)

lemma path_exists_emit [simp]: "path_exists (emit e w) a = path_exists w a"
  by (simp add: path_exists_def)

lemma copy2_target_fst [simp]: "fst (copy2_target w src dst) = fst dst"
  by (simp add: copy2_target_def)

lemma thread_copy_step:
  assumes "path_exists w (dirname (d, snd t))" and "snd t \<noteq> []"
  shows "evolves copy_event d w (thread_copy now d w t)"
    and "path_exists w b \<Longrightarrow> path_exists (thread_copy now d w t) b"
proof -
  from thread_copy_cases[OF assms, of now]
  consider e where "thread_copy now d w t = emit (Failed (fst t) e) w"
    | m c where "point_upd w (copy2_target w (fst t) (d, snd t)) (Some (Inl (m, c)))
              (Copied (fst t) (copy2_target w (fst t) (d, snd t))) (thread_copy now d w t)"
    by blast
  then have "evolves copy_event d w (thread_copy now d w t) \<and>
      (path_exists w b \<longrightarrow> path_exists (thread_copy now d w t) b)"
  proof cases
    case 1
    then show ?thesis by (simp add: evolves_emit copy_event_def)
  next
    case 2
    from evolves_point[OF 2, of copy_event d] point_upd_view[OF 2, of b] show ?thesis
      by (simp add: copy_event_def path_exists_view)
  qed
  then show "evolves copy_event d w (thread_copy now d w t)"
    and "path_exists w b \<Longrightarrow> path_exists (thread_copy now d w t) b" by simp_all
qed

lemma copy_fold:
  assumes "\<And>t. t \<in> set ts \<Longrightarrow> snd t \<noteq> [] \<and> path_exists w (dirname (d, snd t))"
  shows "evolves copy_event d w (foldl (thread_copy now d) w ts)"
  using assms
proof (induction ts arbitrary: w)
  case Nil
  then show ?case by (simp add: evolves_refl)
next
  case (Cons t ts)
  let ?w1 = "thread_copy now d w t"
  from Cons.prems[of t] have t: "path_exists w (dirname (d, snd t))" "snd t \<noteq> []" by simp_all
  have "evolves copy_event d ?w1 (foldl (thread_copy now d) ?w1 ts)"
  proof (rule Cons.IH)
    fix u assume "u \<in> set ts"
    with Cons.prems[of u] thread_copy_step(2)[OF t]
    show "snd u \<noteq> [] \<and> path_exists ?w1 (dirname (d, snd u))" by simp
  qed
  with thread_copy_step(1)[OF t] show ?case by (auto intro: evolves_trans)
qed

lemma delete_step:
  assumes "fst a = d"
  shows "evolves delete_event d w (delete_file_safe w a)"
proof -
  from delete_file_safe_cases[of w a]
  consider "delete_file_safe w a = w"
    | e where "delete_file_safe w a = emit (Failed a e) w"
    | "point_upd w a None (Removed a) (delete_file_safe w a)"
    by blast
  then show ?thesis
  proof cases
    case 1
    then show ?thesis by (simp add: evolves_refl)
  next
    case 2
    then show ?thesis by (simp add: evolves_emit delete_event_def)
  next
    case 3
    from evolves_point[OF 3, of delete_event d] assms show ?thesis
      by (simp add: delete_event_def)
  qed
qed

lemma rod_step:
  assumes "fst (fst x) = d"
  shows "evolves rmdir_event d w (remove_if_obsolete S w x)"
proof -
  from remove_if_obsolete_cases[of S w x]
  consider "remove_if_obsolete S w x = w"
    | e where "remove_if_obsolete S w x = emit (Failed (fst x) e) w"
    | "remove_if_obsolete S w x = emit (Warning (snd x)) w"
    | "point_upd w (fst x) None (Rmdir (fst x)) (remove_if_obsolete S w x)"
    by blast
  then show ?thesis
  proof cases
    case 1
    then show ?thesis by (simp add: evolves_refl)
  next
    case 2
    then show ?thesis by (simp add: evolves_emit rmdir_event_def)
  next
    case 3
    then show ?thesis by (simp add: evolves_emit rmdir_event_def)
  next
    case 4
    from evolves_point[OF 4, of rmdir_event d] assms show ?thesis
      by (simp add: rmdir_event_def)
  qed
qed

lemma rod_step_removes:
  assumes "snd x \<notin> S" and "empty_dir w (fst x)"
  shows "point_upd w (fst x) None (Rmdir (fst x)) (remove_if_obsolete S w x)"
proof (cases "os_rmdir w (fst x)")
  case (Inl e)
  from os_rmdir_fails[OF this] assms(2) show ?thesis by (simp add: os_listdir_empty)
next
  case (Inr w')
  from os_rmdir_point[OF Inr] Inr assms show ?thesis
    by (auto simp: remove_if_obsolete_def simp flip: os_listdir_empty)
qed

lemma delete_fold:
  assumes "\<And>a. a \<in> set dels \<Longrightarrow> fst a = d"
  shows "evolves delete_event d w (foldl delete_file_safe w dels)"
  using assms
proof (induction dels arbitrary: w)
  case Nil
  then show ?case by (simp add: evolves_refl)
next
  case (Cons a dels)
  have "evolves delete_event d w (delete_file_safe w a)"
    by (rule delete_step) (simp add: Cons.prems)
  moreover have "evolves delete_event d (delete_file_safe w a)
      (foldl delete_file_safe (delete_file_safe w a) dels)"
    by (rule Cons.IH) (simp add: Cons.prems)
  ultimately show ?case by (auto intro: evolves_trans)
qed

lemma rod_fold:
  assumes "\<And>x. x \<in> set xs \<Longrightarrow> fst (fst x) = d"
  shows "evolves rmdir_event d w (foldl (remove_if_obsolete S) w xs)"
  using assms
proof (induction xs arbitrary: w)
  case Nil
  then show ?case by (simp add: evolves_refl)
next
  case (Cons x xs)
  have "evolves rmdir_event d w (remove_if_obsolete S w x)"
    by (rule rod_step) (simp add: Cons.prems)
  moreover have "evolves rmdir_event d (remove_if_obsolete S w x)
      (foldl (remove_if_obsolete S) (remove_if_obsolete S w x) xs)"
    by (rule Cons.IH) (simp add: Cons.prems)
  ultimately show ?case by (auto intro: evolves_trans)
qed

lemma rod_step_none: "view w b = None \<Longrightarrow> view (remove_if_obsolete S w x) b = None"
  using remove_if_obsolete_cases[of S w x] by (auto simp: point_upd_view)

lemma rod_fold_none: "view w b = None \<Longrightarrow> view (foldl (remove_if_obsolete S) w xs) b = None"
  by (induction xs arbitrary: w) (simp_all add: rod_step_none)

lemma rod_step_empty:
  assumes "empty_dir w a" and "fst x \<noteq> a"
  shows "empty_dir (remove_if_obsolete S w x) a"
proof -
  have "view (remove_if_obsolete S w x) a = view w a"
    using assms(2) by (simp add: rod_step_view_other)
  moreover have "view (remove_if_obsolete S w x) (fst a, snd a @ [n]) = None" for n
    using assms(1) by (simp add: empty_dir_view rod_step_none)
  ultimately show ?thesis using assms(1) by (simp add: empty_dir_view)
qed

lemma rod_fold_removed:
  assumes "\<And>x. x \<in> set xs \<Longrightarrow> fst x = (d, snd x)"
    and "x0 \<in> set xs" and "snd x0 \<notin> S" and "empty_dir w (fst x0)"
  shows "view (foldl (remove_if_obsolete S) w xs) (fst x0) = None"
  using assms
proof (induction xs arbitrary: w)
  case Nil
  then show ?case by simp
next
  case (Cons x xs)
  show ?case
  proof (cases "fst x = fst x0")
    case True
    with Cons.prems(1)[of x] Cons.prems(1)[of x0] Cons.prems(2) have "snd x = snd x0" by auto
    with Cons.prems(3,4) True have "snd x \<notin> S" "empty_dir w (fst x)" by simp_all
    then have "point_upd w (fst x) None (Rmdir (fst x)) (remove_if_obsolete S w x)"
      by (rule rod_step_removes)
    then have "view (remove_if_obsolete S w x) (fst x0) = None"
      using True by (simp add: point_upd_view)
    then show ?thesis by (simp add: rod_fold_none)
  next
    case False
    with Cons.prems(2) have in_xs: "x0 \<in> set xs" by auto
    from rod_step_empty[OF Cons.prems(4) False]
    have "empty_dir (remove_if_obsolete S w x) (fst x0)" .
    from Cons.IH[OF _ in_xs Cons.prems(3) this] Cons.prems(1) show ?thesis by simp
  qed
qed

lemma os_stat_tree_cong: "tree_of w r = tree_of w' r \<Longrightarrow> os_stat w (r, p) = os_stat w' (r, p)"
  by (simp add: os_stat_def)

lemma os_walk_tree_cong: "tree_of w r = tree_of w' r \<Longrightarrow> os_walk w r = os_walk w' r"
  by (simp add: os_walk_def)

lemma scan_files_tree_cong:
  "tree_of w r = tree_of w' r \<Longrightarrow> scan_files w r flt = scan_files w' r flt"
  using os_walk_tree_cong[of w r w'] by (simp add: scan_files_def)

lemma scan_directories_tree_cong:
  "tree_of w r = tree_of w' r \<Longrightarrow> scan_directories w r = scan_directories w' r"
  using os_walk_tree_cong[of w r w'] by (simp add: scan_directories_def)

lemma evolves_tree: "evolves P d w w' \<Longrightarrow> r \<noteq> d \<Longrightarrow> tree_of w' r = tree_of w r"
  by (simp add: evolves_def)

lemma evolves_wf: "evolves P d w w' \<Longrightarrow> wf_world w \<Longrightarrow> wf_world w'"
  by (simp add: evolves_def)

lemma evolves_journal:
  "evolves P d w w' \<Longrightarrow> \<exists>es. journal w' = journal w @ es \<and> (\<forall>e \<in> set es. P e)"
  by (simp add: evolves_def)

lemma grown_tree: "grown now d P w w' \<Longrightarrow> r \<noteq> d \<Longrightarrow> tree_of w' r = tree_of w r"
  by (simp add: grown_def)

lemma grown_wf: "grown now d P w w' \<Longrightarrow> wf_world w \<Longrightarrow> wf_world w'"
  by (simp add: grown_def)

lemma wf_world_tree: "wf_world w \<Longrightarrow> wf_tree (tree_of w r)"
  by (simp add: wf_world_iff)

lemma collect_delete_tasks_fst:
  "(\<And>x. x \<in> set ds \<Longrightarrow> fst x = (d, snd x)) \<Longrightarrow> a \<in> set (collect_delete_tasks S ds) \<Longrightarrow> fst a = d"
  by (auto simp: collect_delete_tasks_def)

lemma setup_parents:
  assumes mk: "os_makedirs now w (Destination, []) = Inr w1"
    and sd: "sync_directories now w1 Source Destination = Inr w2"
    and wf: "wf_world w"
    and t: "t \<in> set (scan_files w2 Source flt)"
  shows "snd t \<noteq> [] \<and> path_exists w2 (dirname (Destination, snd t))"
proof -
  from setup_grown[OF mk sd] have g: "grown now Destination UNIV w w2"
    and root: "os_isdir w2 (Destination, [])" by simp_all
  from create_dirs_grown[of now Destination "scan_directories w1 Source" w1] sd
  have g2: "grown now Destination {q. \<exists>x\<in>set (scan_directories w1 Source). prefix q (snd x)} w1 w2"
    by (simp add: sync_directories_def)
  have wf2: "wf_world w2" using g wf by (rule grown_wf)
  have t12: "tree_of w2 Source = tree_of w1 Source" using g2 by (rule grown_tree) simp
  from t obtain root ds fs f where
    wk: "(root, ds, fs) \<in> set (os_walk w2 Source)" and rel: "snd t = root @ [f]"
    unfolding in_scan_files by auto
  have "path_exists w2 (Destination, root)"
  proof (cases "root = []")
    case True
    with root show ?thesis by (simp add: os_isdir_exists)
  next
    case False
    from os_walk_sound[OF wf_world_tree[OF wf2] wk] obtain m es where
      "os_stat w2 (Source, root) = Some (Dir m es)" by auto
    with t12 have st1: "os_stat w1 (Source, root) = Some (Dir m es)"
      by (simp add: os_stat_def)
    from scan_directories_complete[OF st1 False]
    have "((Source, root), root) \<in> set (scan_directories w1 Source)" .
    from create_dirs_done[OF sd[unfolded sync_directories_def] this]
    show ?thesis by simp
  qed
  with rel show ?thesis by (simp add: dirname_def)
qed

text \<open>The worlds of a run that returns, one after each phase.\<close>

lemma run_phases:
  assumes run: "sync_folders H cpu now w Source Destination = Inr r" and wf: "wf_world w"
  shows "\<exists>w1 w2 w3 w4.
      os_makedirs now w (Destination, []) = Inr w1 \<and>
      sync_directories now w1 Source Destination = Inr w2 \<and>
      grown now Destination UNIV w w2 \<and> os_isdir w2 (Destination, []) \<and>
      src_files r = scan_files w2 Source True \<and>
      collect_copy_tasks H w2 Destination (src_files r) = Inr (copy_tasks r) \<and>
      dst_files r = scan_files w2 Destination False \<and>
      delete_tasks r = collect_delete_tasks (set (map snd (src_files r))) (dst_files r) \<and>
      w3 = copy_phase cpu now Destination w2 (copy_tasks r) \<and>
      w4 = delete_phase w3 (delete_tasks r) \<and>
      after r = remove_obsolete_directories w4 Source Destination \<and>
      (\<forall>t \<in> set (src_files r). snd t \<noteq> [] \<and> path_exists w2 (dirname (Destination, snd t))) \<and>
      wf_world w2 \<and> tree_of w2 Source = tree_of w Source \<and>
      evolves copy_event Destination w2 w3 \<and>
      evolves delete_event Destination w3 w4 \<and>
      evolves rmdir_event Destination w4 (after r)"
proof -
  from sync_folders_Inr[OF run] obtain w1 w2 where
    mk: "os_makedirs now w (Destination, []) = Inr w1"
    and sd: "sync_directories now w1 Source Destination = Inr w2"
    and src: "src_files r = scan_files w2 Source True"
    and cp: "collect_copy_tasks H w2 Destination (src_files r) = Inr (copy_tasks r)"
    and dst: "dst_files r = scan_files w2 Destination False"
    and del: "delete_tasks r = collect_delete_tasks (set (map snd (src_files r))) (dst_files r)"
    and aft: "after r = remove_obsolete_directories
        (delete_phase (copy_phase cpu now Destination w2 (copy_tasks r)) (delete_tasks r))
        Source Destination"
    by blast
  define w3 where "w3 = copy_phase cpu now Destination w2 (copy_tasks r)"
  define w4 where "w4 = delete_phase w3 (delete_tasks r)"
  from setup_grown[OF mk sd] have g: "grown now Destination UNIV w w2"
    and root: "os_isdir w2 (Destination, [])" by simp_all
  have wf2: "wf_world w2" using g wf by (rule grown_wf)
  have t02: "tree_of w2 Source = tree_of w Source" using g by (rule grown_tree) simp
  have par: "snd t \<noteq> [] \<and> path_exists w2 (dirname (Destination, snd t))"
    if "t \<in> set (src_files r)" for t
    using that unfolding src by (rule setup_parents[OF mk sd wf])
  have e3: "evolves copy_event Destination w2 w3"
    unfolding w3_def copy_phase_fold
  proof (rule copy_fold)
    fix t assume "t \<in> set (copy_tasks r)"
    with collect_copy_tasks_Inr[OF cp] have "t \<in> set (src_files r)" by auto
    from par[OF this] show "snd t \<noteq> [] \<and> path_exists w2 (dirname (Destination, snd t))" .
  qed
  have dsh: "fst x = (Destination, snd x)" if "x \<in> set (dst_files r)" for x
    using scan_files_shape[of x w2 Destination False] that dst by simp
  have e4: "evolves delete_event Destination w3 w4"
    unfolding w4_def delete_phase_fold
  proof (rule delete_fold)
    fix a assume "a \<in> set (delete_tasks r)"
    then have "a \<in> set (collect_delete_tasks (set (map snd (src_files r))) (dst_files r))"
      by (simp add: del)
    with dsh show "fst a = Destination" by (rule collect_delete_tasks_fst)
  qed
  have aft': "after r = remove_obsolete_directories w4 Source Destination"
    by (simp add: aft w3_def w4_def)
  have e5: "evolves rmdir_event Destination w4 (after r)"
    unfolding aft' remove_obsolete_directories_def Let_def
  proof (rule rod_fold)
    fix x assume "x \<in> set (sort_deepest_first (scan_directories w4 Destination))"
    then show "fst (fst x) = Destination" by (simp add: scan_directories_shape)
  qed
  have w3': "w3 = copy_phase cpu now Destination w2 (copy_tasks r)" by (rule w3_def)
  have w4': "w4 = delete_phase w3 (delete_tasks r)" by (rule w4_def)
  from par have par': "\<forall>t \<in> set (src_files r).
      snd t \<noteq> [] \<and> path_exists w2 (dirname (Destination, snd t))" by blast
  show ?thesis
    by (intro exI[of _ w1] exI[of _ w2] exI[of _ w3] exI[of _ w4] conjI)
      (rule mk sd g root src cp dst del w3' w4' aft' par' wf2 t02 e3 e4 e5)+
qed

lemma demo_wf: "wf_world demo_world"
  by code_simp

lemma demo_setup:
  "os_makedirs 10 demo_world (Destination, []) = Inr demo_world"
  "sync_directories 10 demo_world Source Destination = Inr demo_created"
  by code_simp+

lemma demo_stale:
  "os_listdir (delete_phase (copy_phase 4 10 Destination demo_created (copy_tasks demo_run))
      (delete_tasks demo_run)) (Destination, [''stale'']) = Inr []"
  "\<not> os_isdir demo_world (Source, [''stale''])"
  "os_stat demo_world (Destination, [''stale'', ''f'']) = Some (File 1 ''f'')"
  by code_simp+

lemma rod_demo:
  "remove_obsolete_directories rod_world Source Destination = rod_after"
  "sort_deepest_first (scan_directories rod_world Destination) =
     [((Destination, [''keep'', ''sub'']), [''keep'', ''sub'']),
      ((Destination, [''sub'']), [''sub'']),
      ((Destination, [''stale'']), [''stale'']),
      ((Destination, [''keep'']), [''keep''])]"
  "[''sub''] \<in> snd ` set (scan_directories rod_world Source)"
  "os_isdir rod_world (Destination, [''sub''])"
  by code_simp+

text \<open>
  Claim C5. \<^verbatim>\<open>remove_obsolete_directories\<close> runs its loop over the destination directories
  sorted by depth, deepest first, so that no directory comes before one below it; a turn of
  the loop leaves the world alone when the relative path is a directory of the source,
  removes the directory when the path is not one and the directory is empty, and logs a
  warning and keeps it when it is not empty; and a destination directory whose relative
  path is a directory of the source is still there at the end.
\<close>

theorem obsolete_directories_deepest_first:
  "remove_obsolete_directories w s d =
     foldl (remove_if_obsolete (set (map snd (scan_directories w s)))) w
       (sort_deepest_first (scan_directories w d)) \<and>
   set (sort_deepest_first (scan_directories w d)) = set (scan_directories w d) \<and>
   length (sort_deepest_first (scan_directories w d)) = length (scan_directories w d) \<and>
   (\<forall>i j. i < j \<and> j < length (scan_directories w d) \<longrightarrow>
      count_sep (snd (sort_deepest_first (scan_directories w d) ! j))
        \<le> count_sep (snd (sort_deepest_first (scan_directories w d) ! i)) \<and>
      \<not> strict_prefix (snd (sort_deepest_first (scan_directories w d) ! i))
          (snd (sort_deepest_first (scan_directories w d) ! j))) \<and>
   (\<forall>w' x. (snd x \<in> S \<longrightarrow> remove_if_obsolete S w' x = w') \<and>
      (snd x \<notin> S \<and> os_listdir w' (fst x) = Inr [] \<longrightarrow>
         point_upd w' (fst x) None (Rmdir (fst x)) (remove_if_obsolete S w' x)) \<and>
      (snd x \<notin> S \<and> os_isdir w' (fst x) \<and> os_listdir w' (fst x) \<noteq> Inr [] \<longrightarrow>
         remove_if_obsolete S w' x = emit (Warning (snd x)) w')) \<and>
   (\<forall>rel. rel \<in> snd ` set (scan_directories w s) \<and> os_isdir w (d, rel) \<longrightarrow>
      os_isdir (remove_obsolete_directories w s d) (d, rel))"
proof -
  let ?order = "sort_deepest_first (scan_directories w d)"
  let ?S = "set (map snd (scan_directories w s))"
  have def: "remove_obsolete_directories w s d = foldl (remove_if_obsolete ?S) w ?order"
    by (simp add: remove_obsolete_directories_def)
  have ord: "count_sep (snd (?order ! j)) \<le> count_sep (snd (?order ! i)) \<and>
      \<not> strict_prefix (snd (?order ! i)) (snd (?order ! j))"
    if "i < j" "j < length (scan_directories w d)" for i j
  proof -
    from that have j: "j < length ?order" and i: "i < length ?order" by simp_all
    from sort_deepest_first_order[OF that(1) j]
    have le: "count_sep (snd (?order ! j)) \<le> count_sep (snd (?order ! i))" .
    from i have "?order ! i \<in> set (scan_directories w d)"
      using nth_mem[OF i] by simp
    then have ne: "snd (?order ! i) \<noteq> []" by (simp add: scan_directories_shape)
    have "\<not> strict_prefix (snd (?order ! i)) (snd (?order ! j))"
    proof
      assume "strict_prefix (snd (?order ! i)) (snd (?order ! j))"
      then have "length (snd (?order ! i)) < length (snd (?order ! j))"
        by (metis prefix_length_less)
      moreover from ne have "0 < length (snd (?order ! i))" by simp
      ultimately show False using le unfolding count_sep_def by linarith
    qed
    with le show ?thesis by simp
  qed
  have step: "(snd x \<in> S \<longrightarrow> remove_if_obsolete S w' x = w') \<and>
      (snd x \<notin> S \<and> os_listdir w' (fst x) = Inr [] \<longrightarrow>
         point_upd w' (fst x) None (Rmdir (fst x)) (remove_if_obsolete S w' x)) \<and>
      (snd x \<notin> S \<and> os_isdir w' (fst x) \<and> os_listdir w' (fst x) \<noteq> Inr [] \<longrightarrow>
         remove_if_obsolete S w' x = emit (Warning (snd x)) w')" for w' x
  proof (intro conjI impI)
    show "remove_if_obsolete S w' x = w'" if "snd x \<in> S"
      using that by (simp add: remove_if_obsolete_def)
    show "point_upd w' (fst x) None (Rmdir (fst x)) (remove_if_obsolete S w' x)"
      if "snd x \<notin> S \<and> os_listdir w' (fst x) = Inr []"
    proof (cases "os_rmdir w' (fst x)")
      case (Inl e)
      from os_rmdir_fails[OF this] that show ?thesis by simp
    next
      case (Inr w'')
      from os_rmdir_point[OF Inr] Inr that show ?thesis
        by (auto simp: remove_if_obsolete_def)
    qed
    show "remove_if_obsolete S w' x = emit (Warning (snd x)) w'"
      if "snd x \<notin> S \<and> os_isdir w' (fst x) \<and> os_listdir w' (fst x) \<noteq> Inr []"
      using that
      by (auto simp: remove_if_obsolete_def os_listdir_def os_isdir_def
          split: option.splits node.splits)
  qed
  have kept: "os_isdir (remove_obsolete_directories w s d) (d, rel)"
    if "rel \<in> snd ` set (scan_directories w s) \<and> os_isdir w (d, rel)" for rel
  proof -
    have "view (foldl (remove_if_obsolete ?S) w ?order) (d, rel) = view w (d, rel)"
    proof (rule rod_fold_kept)
      show "fst x = (d, snd x)" if "x \<in> set ?order" for x
        using that by (simp add: scan_directories_shape)
      show "rel \<in> ?S" using that by simp
    qed
    with that show ?thesis by (simp add: def os_isdir_view)
  qed
  from def ord step kept show ?thesis by simp
qed

theorem obsolete_directories_deepest_first_witness:
  "remove_obsolete_directories rod_world Source Destination = rod_after \<and>
   sort_deepest_first (scan_directories rod_world Destination) =
     [((Destination, [''keep'', ''sub'']), [''keep'', ''sub'']),
      ((Destination, [''sub'']), [''sub'']),
      ((Destination, [''stale'']), [''stale'']),
      ((Destination, [''keep'']), [''keep''])] \<and>
   [''sub''] \<in> snd ` set (scan_directories rod_world Source) \<and>
   os_isdir rod_world (Destination, [''sub'']) \<and>
   os_isdir (remove_obsolete_directories rod_world Source Destination) (Destination, [''sub''])"
proof -
  note inst = obsolete_directories_deepest_first[where w = rod_world and s = Source
      and d = Destination and S = "{}"]
  note kept = inst[THEN conjunct2, THEN conjunct2, THEN conjunct2, THEN conjunct2, THEN conjunct2]
  from kept rod_demo(3,4)
  have "os_isdir (remove_obsolete_directories rod_world Source Destination) (Destination, [''sub''])"
    by blast
  with rod_demo show ?thesis by simp
qed

text \<open>
  Claim C8. In a run of \<^verbatim>\<open>sync_folders\<close> that returns, the journal is made of four
  stretches in this order: the directories created, the files copied (or failed to copy),
  the files removed, the obsolete directories removed (or kept with a warning). So every
  directory is created before any file is copied and every file is deleted before any
  directory is removed; and a destination directory that is empty once the files are
  deleted, and that the source has no directory for, is gone when the run ends.
\<close>

theorem phases_in_order:
  assumes run: "sync_folders H cpu now w Source Destination = Inr r" and wf: "wf_world w"
  shows "\<exists>w1 w2 w3 w4 mk cp dl rm.
      os_makedirs now w (Destination, []) = Inr w1 \<and>
      sync_directories now w1 Source Destination = Inr w2 \<and>
      w3 = copy_phase cpu now Destination w2 (copy_tasks r) \<and>
      w4 = delete_phase w3 (delete_tasks r) \<and>
      after r = remove_obsolete_directories w4 Source Destination \<and>
      journal w2 = journal w @ mk \<and> (\<forall>e \<in> set mk. is_mkdir e) \<and>
      journal w3 = journal w2 @ cp \<and> (\<forall>e \<in> set cp. copy_event e) \<and>
      journal w4 = journal w3 @ dl \<and> (\<forall>e \<in> set dl. delete_event e) \<and>
      journal (after r) = journal w4 @ rm \<and> (\<forall>e \<in> set rm. rmdir_event e) \<and>
      (\<forall>rel. rel \<noteq> [] \<and> os_listdir w4 (Destination, rel) = Inr [] \<and>
          \<not> os_isdir w (Source, rel) \<longrightarrow> \<not> path_exists (after r) (Destination, rel))"
proof -
  from run_phases[OF run wf] obtain w1 w2 w3 w4 where
    mk: "os_makedirs now w (Destination, []) = Inr w1"
    and sd: "sync_directories now w1 Source Destination = Inr w2"
    and g: "grown now Destination UNIV w w2"
    and w3: "w3 = copy_phase cpu now Destination w2 (copy_tasks r)"
    and w4: "w4 = delete_phase w3 (delete_tasks r)"
    and aft: "after r = remove_obsolete_directories w4 Source Destination"
    and wf2: "wf_world w2" and t02: "tree_of w2 Source = tree_of w Source"
    and e3: "evolves copy_event Destination w2 w3"
    and e4: "evolves delete_event Destination w3 w4"
    and e5: "evolves rmdir_event Destination w4 (after r)"
    by blast
  from evolves_journal[OF evolves_grown[OF g]] obtain mk where
    jm: "journal w2 = journal w @ mk" "\<forall>e \<in> set mk. is_mkdir e" by blast
  from evolves_journal[OF e3] obtain cp where
    jc: "journal w3 = journal w2 @ cp" "\<forall>e \<in> set cp. copy_event e" by blast
  from evolves_journal[OF e4] obtain dl where
    jd: "journal w4 = journal w3 @ dl" "\<forall>e \<in> set dl. delete_event e" by blast
  from evolves_journal[OF e5] obtain rm where
    jr: "journal (after r) = journal w4 @ rm" "\<forall>e \<in> set rm. rmdir_event e" by blast
  have wf4: "wf_world w4" using e4 evolves_wf[OF e3 wf2] by (rule evolves_wf)
  have t4: "tree_of w4 Source = tree_of w Source"
    using evolves_tree[OF e4, of Source] evolves_tree[OF e3, of Source] t02 by simp
  have gone: "\<not> path_exists (after r) (Destination, rel)"
    if "rel \<noteq> [] \<and> os_listdir w4 (Destination, rel) = Inr [] \<and> \<not> os_isdir w (Source, rel)"
    for rel
  proof -
    from that have ne: "rel \<noteq> []" and em: "empty_dir w4 (Destination, rel)"
      and ns: "\<not> os_isdir w (Source, rel)" by (simp_all add: os_listdir_empty)
    from em obtain m where st: "os_stat w4 (Destination, rel) = Some (Dir m [])"
      by (auto simp: empty_dir_def)
    let ?x0 = "((Destination, rel), rel)"
    have "view (foldl (remove_if_obsolete (set (map snd (scan_directories w4 Source)))) w4
        (sort_deepest_first (scan_directories w4 Destination))) (fst ?x0) = None"
    proof (rule rod_fold_removed[where d = Destination])
      show "fst x = (Destination, snd x)"
        if "x \<in> set (sort_deepest_first (scan_directories w4 Destination))" for x
        using that by (simp add: scan_directories_shape)
      show "?x0 \<in> set (sort_deepest_first (scan_directories w4 Destination))"
        using scan_directories_complete[OF st ne] by simp
      show "snd ?x0 \<notin> set (map snd (scan_directories w4 Source))"
      proof
        assume "snd ?x0 \<in> set (map snd (scan_directories w4 Source))"
        then obtain x where x: "x \<in> set (scan_directories w4 Source)" "snd x = rel" by auto
        from scan_directories_sound[OF wf_world_tree[OF wf4] x(1)] x(2) t4
        have "os_isdir w (Source, rel)" by (auto simp: os_isdir_def os_stat_def)
        with ns show False ..
      qed
      show "empty_dir w4 (fst ?x0)" using em by simp
    qed
    then show ?thesis
      by (simp add: aft remove_obsolete_directories_def path_exists_view)
  qed
  then have gone': "\<forall>rel. rel \<noteq> [] \<and> os_listdir w4 (Destination, rel) = Inr [] \<and>
          \<not> os_isdir w (Source, rel) \<longrightarrow> \<not> path_exists (after r) (Destination, rel)" by blast
  show ?thesis
    by (intro exI[of _ w1] exI[of _ w2] exI[of _ w3] exI[of _ w4] exI[of _ mk] exI[of _ cp]
        exI[of _ dl] exI[of _ rm] conjI)
      (rule mk sd w3 w4 aft jm jc jd jr gone')+
qed

theorem phases_in_order_witness:
  "sync_folders id 4 10 demo_world Source Destination = Inr demo_run \<and> wf_world demo_world \<and>
   os_stat demo_world (Destination, [''stale'', ''f'']) = Some (File 1 ''f'') \<and>
   \<not> path_exists (after demo_run) (Destination, [''stale'']) \<and>
   journal (after demo_run) =
     [Mkdir (Destination, [''sub'']),
      Copied (Source, [''a.txt'']) (Destination, [''a.txt'']),
      Copied (Source, [''sub'', ''b.txt'']) (Destination, [''sub'', ''b.txt'']),
      Removed (Destination, [''old.txt'']),
      Removed (Destination, [''._a.txt'']),
      Removed (Destination, [''stale'', ''f'']),
      Rmdir (Destination, [''keep'', ''sub'']),
      Rmdir (Destination, [''stale'']),
      Rmdir (Destination, [''keep''])]"
proof -
  from phases_in_order[OF demo_run_eq demo_wf] obtain w1 w2 w3 w4 where
    mk: "os_makedirs 10 demo_world (Destination, []) = Inr w1"
    and sd: "sync_directories 10 w1 Source Destination = Inr w2"
    and w3: "w3 = copy_phase 4 10 Destination w2 (copy_tasks demo_run)"
    and w4: "w4 = delete_phase w3 (delete_tasks demo_run)"
    and gone: "\<forall>rel. rel \<noteq> [] \<and> os_listdir w4 (Destination, rel) = Inr [] \<and>
          \<not> os_isdir demo_world (Source, rel) \<longrightarrow> \<not> path_exists (after demo_run) (Destination, rel)"
    by blast
  from mk demo_setup(1) have "w1 = demo_world" by simp
  with sd demo_setup(2) have "w2 = demo_created" by simp
  with w3 w4 demo_stale(1) have "os_listdir w4 (Destination, [''stale'']) = Inr []" by simp
  with gone demo_stale(2) have "\<not> path_exists (after demo_run) (Destination, [''stale''])"
    by blast
  moreover have "journal (after demo_run) =
     [Mkdir (Destination, [''sub'']),
      Copied (Source, [''a.txt'']) (Destination, [''a.txt'']),
      Copied (Source, [''sub'', ''b.txt'']) (Destination, [''sub'', ''b.txt'']),
      Removed (Destination, [''old.txt'']),
      Removed (Destination, [''._a.txt'']),
      Removed (Destination, [''stale'', ''f'']),
      Rmdir (Destination, [''keep'', ''sub'']),
      Rmdir (Destination, [''stale'']),
      Rmdir (Destination, [''keep''])]"
    by (simp add: demo_run_def demo_after_def)
  ultimately show ?thesis
    using demo_run_eq demo_wf demo_stale(3) by simp
qed

text \<open>
  Claim C7. When the source folder does not exist, \<^verbatim>\<open>sync_folders\<close> raises
  \<^verbatim>\<open>ValueError\<close> at once: the world it leaves is the world it found, with nothing created,
  copied or deleted and nothing added to the journal, and no plan is returned.
\<close>

theorem missing_source_fails_fast:
  "\<not> path_exists w (source_folder, []) \<Longrightarrow>
     sync_folders H cpu now w source_folder destination_folder = Inl (ValueError, w)"
  by (simp add: sync_folders_def)

theorem missing_source_fails_fast_witness:
  "\<not> path_exists no_world (Source, []) \<and>
   sync_folders id 4 0 no_world Source Destination = Inl (ValueError, no_world)"
  using missing_source_fails_fast [of no_world Source id 4 0 Destination]
  by (simp add: path_exists_def os_stat_def no_world_def)

end
